theory Spec2Isabelle
  imports Complex_Main "HOL-Library.Word"
begin

section \<open>JavaScript numbers\<close>

text \<open>
  Every \<open>number\<close> of \<open>common.mts\<close> is an IEEE 754 binary64 value. A finite one is
  modelled by the real it denotes, next to the three special values. The two zeros are
  not told apart: no operation of the module divides by a zero, and \<open>===\<close> equates them.
  The result of an arithmetic operation is the exact result rounded to the nearest
  double, ties to even, overflowing to an infinity.
\<close>

datatype jsnum = NaN | PInf | NInf | Fin real

text \<open>
  \<open>search_exp n lo x\<close> is a binary search for the largest exponent \<open>e\<close> in
  \<open>lo .. lo + 2 ^ n - 1\<close> with \<open>2 powi e \<le> x\<close>; it is \<open>lo\<close> when there is none.
\<close>

fun search_exp :: "nat \<Rightarrow> int \<Rightarrow> real \<Rightarrow> int" where
  "search_exp 0 lo x = lo"
| "search_exp (Suc n) lo x =
     (if 2 powi (lo + 2 ^ n) \<le> x then search_exp n (lo + 2 ^ n) x else search_exp n lo x)"

definition round_half_even :: "real \<Rightarrow> int" where
  "round_half_even x =
     (let m = \<lfloor>x\<rfloor>; f = x - of_int m
      in if f < 1 / 2 then m else if 1 / 2 < f then m + 1 else if even m then m else m + 1)"

text \<open>
  Rounding to a binary format of precision \<open>p\<close> with exponents \<open>emin .. emax\<close>
  (\<open>emax < emin + 2 ^ bits\<close>): the unit in the last place is taken at the exponent of
  \<open>x\<close>, or at \<open>emin\<close> for a subnormal \<open>x\<close>.
\<close>

definition round_to :: "nat \<Rightarrow> nat \<Rightarrow> int \<Rightarrow> int \<Rightarrow> real \<Rightarrow> jsnum" where
  "round_to bits p emin emax x =
     (let e = min emax (search_exp bits emin \<bar>x\<bar>);
          u = 2 powi (e - int p + 1);
          y = of_int (round_half_even (x / u)) * u
      in if 2 powi (emax + 1) \<le> y then PInf
         else if y \<le> - (2 powi (emax + 1)) then NInf
         else Fin y)"

text \<open>The rounded value before the check for overflow.\<close>

definition rounded :: "nat \<Rightarrow> nat \<Rightarrow> int \<Rightarrow> int \<Rightarrow> real \<Rightarrow> real" where
  "rounded bits p emin emax x =
     (let u = 2 powi (min emax (search_exp bits emin \<bar>x\<bar>) - int p + 1)
      in of_int (round_half_even (x / u)) * u)"

definition rnd :: "real \<Rightarrow> jsnum" where
  "rnd = round_to 11 53 (- 1022) 1023"

definition is_double :: "real \<Rightarrow> bool" where
  "is_double x \<longleftrightarrow> rnd x = Fin x"

fun is_finite :: "jsnum \<Rightarrow> bool" where
  "is_finite (Fin x) = True"
| "is_finite _ = False"

fun js_neg :: "jsnum \<Rightarrow> jsnum" where
  "js_neg NaN = NaN"
| "js_neg PInf = NInf"
| "js_neg NInf = PInf"
| "js_neg (Fin x) = Fin (- x)"

fun js_add :: "jsnum \<Rightarrow> jsnum \<Rightarrow> jsnum" where
  "js_add (Fin a) (Fin b) = rnd (a + b)"
| "js_add NaN _ = NaN"
| "js_add _ NaN = NaN"
| "js_add PInf NInf = NaN"
| "js_add NInf PInf = NaN"
| "js_add PInf _ = PInf"
| "js_add _ PInf = PInf"
| "js_add NInf _ = NInf"
| "js_add _ NInf = NInf"

text \<open>The sign of a product or quotient with an infinite operand.\<close>

definition signed_inf :: "bool \<Rightarrow> jsnum" where
  "signed_inf negative = (if negative then NInf else PInf)"

fun js_mul :: "jsnum \<Rightarrow> jsnum \<Rightarrow> jsnum" where
  "js_mul (Fin a) (Fin b) = rnd (a * b)"
| "js_mul NaN _ = NaN"
| "js_mul _ NaN = NaN"
| "js_mul PInf (Fin b) = (if b = 0 then NaN else signed_inf (b < 0))"
| "js_mul NInf (Fin b) = (if b = 0 then NaN else signed_inf (0 < b))"
| "js_mul (Fin a) PInf = (if a = 0 then NaN else signed_inf (a < 0))"
| "js_mul (Fin a) NInf = (if a = 0 then NaN else signed_inf (0 < a))"
| "js_mul PInf PInf = PInf"
| "js_mul PInf NInf = NInf"
| "js_mul NInf PInf = NInf"
| "js_mul NInf NInf = PInf"

text \<open>A zero divisor is taken as \<open>+0\<close>.\<close>

fun js_div :: "jsnum \<Rightarrow> jsnum \<Rightarrow> jsnum" where
  "js_div (Fin a) (Fin b) =
     (if b = 0 then (if a = 0 then NaN else signed_inf (a < 0)) else rnd (a / b))"
| "js_div NaN _ = NaN"
| "js_div _ NaN = NaN"
| "js_div (Fin a) PInf = Fin 0"
| "js_div (Fin a) NInf = Fin 0"
| "js_div PInf (Fin b) = signed_inf (b < 0)"
| "js_div NInf (Fin b) = signed_inf (0 \<le> b)"
| "js_div PInf _ = NaN"
| "js_div NInf _ = NaN"

text \<open>
  \<open>%\<close> is the remainder of the division truncated towards zero; it has the sign of the
  dividend and is exact.
\<close>

definition trunc :: "real \<Rightarrow> int" where
  "trunc q = (if 0 \<le> q then \<lfloor>q\<rfloor> else \<lceil>q\<rceil>)"

definition fmod :: "real \<Rightarrow> real \<Rightarrow> real" where
  "fmod a b = a - b * of_int (trunc (a / b))"

fun js_rem :: "jsnum \<Rightarrow> jsnum \<Rightarrow> jsnum" where
  "js_rem (Fin a) (Fin b) = (if b = 0 then NaN else Fin (fmod a b))"
| "js_rem (Fin a) PInf = Fin a"
| "js_rem (Fin a) NInf = Fin a"
| "js_rem _ _ = NaN"

text \<open>\<open>a !== b\<close> on numbers: \<open>NaN\<close> differs from everything, itself included.\<close>

definition js_strict_neq :: "jsnum \<Rightarrow> jsnum \<Rightarrow> bool" where
  "js_strict_neq a b \<longleftrightarrow> a = NaN \<or> b = NaN \<or> a \<noteq> b"

text \<open>
  The least magnitude that rounds to an infinity, and the largest finite value, of the
  format with precision \<open>p\<close> and largest exponent \<open>emax\<close>.
\<close>

definition threshold :: "nat \<Rightarrow> int \<Rightarrow> real" where
  "threshold p emax = 2 powi (emax + 1) - 2 powi (emax - int p)"

definition largest :: "nat \<Rightarrow> int \<Rightarrow> real" where
  "largest p emax = 2 powi (emax + 1) - 2 powi (emax - int p + 1)"

text \<open>\<open>a < b\<close> and \<open>a <= b\<close> on numbers; both are false when an operand is \<open>NaN\<close>.\<close>

fun js_lt :: "jsnum \<Rightarrow> jsnum \<Rightarrow> bool" where
  "js_lt (Fin a) (Fin b) = (a < b)"
| "js_lt NaN _ = False"
| "js_lt _ NaN = False"
| "js_lt _ NInf = False"
| "js_lt PInf _ = False"
| "js_lt NInf _ = True"
| "js_lt _ PInf = True"

definition js_le :: "jsnum \<Rightarrow> jsnum \<Rightarrow> bool" where
  "js_le a b \<longleftrightarrow> js_lt a b \<or> (a \<noteq> NaN \<and> a = b)"

section \<open>World constants and the direction table\<close>

definition SERVER_PORT :: jsnum where "SERVER_PORT = Fin 6970"
definition WORLD_FACTOR :: jsnum where "WORLD_FACTOR = Fin 200"
definition WORLD_WIDTH :: jsnum where "WORLD_WIDTH = js_mul (Fin 4) WORLD_FACTOR"
definition WORLD_HEIGHT :: jsnum where "WORLD_HEIGHT = js_mul (Fin 3) WORLD_FACTOR"
definition PLAYER_SIZE :: jsnum where "PLAYER_SIZE = Fin 30"
definition PLAYER_SPEED :: jsnum where "PLAYER_SPEED = Fin 500"

datatype Direction = Left | Right | Up | Down

record Vector2 =
  vec_x :: jsnum
  vec_y :: jsnum

text \<open>The table in declaration order, which is the order \<open>for ... in\<close> visits its keys.\<close>

definition DIRECTION_VECTORS :: "(Direction \<times> Vector2) list" where
  "DIRECTION_VECTORS =
     [(Left,  \<lparr>vec_x = Fin (- 1), vec_y = Fin 0\<rparr>),
      (Right, \<lparr>vec_x = Fin 1, vec_y = Fin 0\<rparr>),
      (Up,    \<lparr>vec_x = Fin 0, vec_y = Fin (- 1)\<rparr>),
      (Down,  \<lparr>vec_x = Fin 0, vec_y = Fin 1\<rparr>)]"

section \<open>The movement engine\<close>

record Player =
  player_id :: jsnum
  player_x :: jsnum
  player_y :: jsnum
  moving :: "Direction \<Rightarrow> bool"
  hue :: jsnum

definition properMod :: "jsnum \<Rightarrow> jsnum \<Rightarrow> jsnum" where
  "properMod a b = js_rem (js_add (js_rem a b) b) b"

text \<open>One iteration of the loop over the table: \<open>(dx, dy)\<close> before and after.\<close>

definition add_direction ::
  "(Direction \<Rightarrow> bool) \<Rightarrow> jsnum \<times> jsnum \<Rightarrow> Direction \<times> Vector2 \<Rightarrow> jsnum \<times> jsnum" where
  "add_direction m d entry =
     (if m (fst entry)
      then (js_add (fst d) (vec_x (snd entry)), js_add (snd d) (vec_y (snd entry)))
      else d)"

definition sum_directions :: "(Direction \<Rightarrow> bool) \<Rightarrow> jsnum \<times> jsnum" where
  "sum_directions m = foldl (add_direction m) (Fin 0, Fin 0) DIRECTION_VECTORS"

definition squared_length :: "jsnum \<times> jsnum \<Rightarrow> jsnum" where
  "squared_length d = js_add (js_mul (fst d) (fst d)) (js_mul (snd d) (snd d))"

definition normalize_direction :: "jsnum \<times> jsnum \<Rightarrow> jsnum \<times> jsnum" where
  "normalize_direction d =
     (let l = squared_length d
      in if js_strict_neq l (Fin 0) then (js_div (fst d) l, js_div (snd d) l) else d)"

definition displacement :: "jsnum \<Rightarrow> jsnum \<Rightarrow> jsnum" where
  "displacement d deltaTime = js_mul (js_mul d PLAYER_SPEED) deltaTime"

definition updatePlayer :: "Player \<Rightarrow> jsnum \<Rightarrow> Player" where
  "updatePlayer player deltaTime =
     (let d = normalize_direction (sum_directions (moving player))
      in player
           \<lparr>player_x :=
              properMod (js_add (player_x player) (displacement (fst d) deltaTime)) WORLD_WIDTH,
            player_y :=
              properMod (js_add (player_y player) (displacement (snd d) deltaTime)) WORLD_HEIGHT\<rparr>)"

text \<open>The position is inside the world: \<open>0 <= x < WORLD_WIDTH\<close>, \<open>0 <= y < WORLD_HEIGHT\<close>.\<close>

definition in_bounds :: "Player \<Rightarrow> bool" where
  "in_bounds player \<longleftrightarrow>
     js_le (Fin 0) (player_x player) \<and> js_lt (player_x player) WORLD_WIDTH
     \<and> js_le (Fin 0) (player_y player) \<and> js_lt (player_y player) WORLD_HEIGHT"

text \<open>The values a component of the scaled direction of a tick can take.\<close>

definition unit_steps :: "jsnum set" where
  "unit_steps = {Fin 0, Fin 1, Fin (- 1), Fin (1 / 2), Fin (- (1 / 2))}"

text \<open>
  A number the program holds is a double: \<open>representable\<close> says so of a finite value.
  A coordinate \<open>v\<close> wraps exactly under the bound \<open>b\<close> when the sum \<open>v + b\<close>, which
  \<open>properMod\<close> forms for a \<open>v\<close> inside the world, is a double and so is not rounded.
\<close>

fun representable :: "jsnum \<Rightarrow> bool" where
  "representable (Fin v) = is_double v"
| "representable _ = True"

fun wraps_exactly :: "jsnum \<Rightarrow> jsnum \<Rightarrow> bool" where
  "wraps_exactly (Fin v) (Fin b) = is_double (v + b)"
| "wraps_exactly _ _ = False"

text \<open>The double that the literal \<open>0.1\<close> denotes, and the double \<open>2 ^ 1023\<close>.\<close>

definition tenth :: real where
  "tenth = 3602879701896397 / 36028797018963968"

definition huge :: real where
  "huge = 2 ^ 1023"

text \<open>Moving flags and players of the scenarios.\<close>

definition diagonal :: "Direction \<Rightarrow> bool" where
  "diagonal d \<longleftrightarrow> d = Up \<or> d = Right"

definition still :: "Direction \<Rightarrow> bool" where
  "still d \<longleftrightarrow> False"

definition only :: "Direction \<Rightarrow> Direction \<Rightarrow> bool" where
  "only dir d \<longleftrightarrow> d = dir"

definition player_at :: "real \<Rightarrow> real \<Rightarrow> (Direction \<Rightarrow> bool) \<Rightarrow> Player" where
  "player_at x y m = \<lparr>player_id = Fin 1, player_x = Fin x, player_y = Fin y, moving = m, hue = Fin 0\<rparr>"

section \<open>The binary schema builder\<close>

text \<open>
  A \<open>DataView\<close> is modelled by the bytes it spans. An access outside the view throws a
  \<open>RangeError\<close>; offsets are natural numbers.
\<close>

datatype js_error = RangeError | TypeError

type_synonym DataView = "8 word list"

definition read_bytes :: "DataView \<Rightarrow> nat \<Rightarrow> nat \<Rightarrow> js_error + 8 word list" where
  "read_bytes view i k =
     (if i + k \<le> length view then Inr (take k (drop i view)) else Inl RangeError)"

definition write_bytes :: "DataView \<Rightarrow> nat \<Rightarrow> 8 word list \<Rightarrow> js_error + DataView" where
  "write_bytes view i bs =
     (if i + length bs \<le> length view
      then Inr (take i view @ bs @ drop (i + length bs) view)
      else Inl RangeError)"

text \<open>The \<open>k\<close> bytes of an unsigned integer, least significant first, and back.\<close>

fun le_bytes :: "nat \<Rightarrow> nat \<Rightarrow> 8 word list" where
  "le_bytes 0 n = []"
| "le_bytes (Suc k) n = of_nat (n mod 256) # le_bytes k (n div 256)"

fun le_value :: "8 word list \<Rightarrow> nat" where
  "le_value [] = 0"
| "le_value (b # bs) = unat b + 256 * le_value bs"

text \<open>The byte order of a multi-byte access: the source always passes \<open>true\<close>.\<close>

definition ordered :: "bool \<Rightarrow> 8 word list \<Rightarrow> 8 word list" where
  "ordered littleEndian bs = (if littleEndian then bs else rev bs)"

text \<open>
  \<open>ToUint8\<close> and \<open>ToUint32\<close>: \<open>NaN\<close> and the infinities give 0, a finite number is
  truncated towards zero and reduced modulo \<open>2 ^ 8\<close> or \<open>2 ^ 32\<close>.
\<close>

fun to_uint :: "nat \<Rightarrow> jsnum \<Rightarrow> nat" where
  "to_uint bits (Fin r) = nat (trunc r mod 2 ^ bits)"
| "to_uint bits _ = 0"

text \<open>
  The binary32 format. \<open>fround\<close> rounds a number to single precision;
  \<open>float32_bits\<close> is the bit pattern of a single-precision value (sign, 8 bits of biased
  exponent, 23 bits of fraction; one quiet \<open>NaN\<close> pattern stands for every \<open>NaN\<close>), and
  \<open>float32_value\<close> is the number a bit pattern denotes.
\<close>

fun fround :: "jsnum \<Rightarrow> jsnum" where
  "fround (Fin r) = round_to 8 24 (- 126) 127 r"
| "fround v = v"

definition float32_magnitude :: "real \<Rightarrow> nat" where
  "float32_magnitude a =
     (if a < 2 powi (- 126) then nat \<lfloor>a / 2 powi (- 149)\<rfloor>
      else let e = search_exp 8 (- 126) a
           in nat (e + 127) * 2 ^ 23 + (nat \<lfloor>a / 2 powi (e - 23)\<rfloor> - 2 ^ 23))"

fun float32_bits :: "jsnum \<Rightarrow> nat" where
  "float32_bits NaN = 255 * 2 ^ 23 + 2 ^ 22"
| "float32_bits PInf = 255 * 2 ^ 23"
| "float32_bits NInf = 2 ^ 31 + 255 * 2 ^ 23"
| "float32_bits (Fin y) = (if y < 0 then 2 ^ 31 else 0) + float32_magnitude \<bar>y\<bar>"

definition float32_value :: "nat \<Rightarrow> jsnum" where
  "float32_value bits =
     (let negative = (bits div 2 ^ 31) mod 2 = 1;
          e = (bits div 2 ^ 23) mod 256;
          f = bits mod 2 ^ 23
      in if e = 255 then (if f = 0 then signed_inf negative else NaN)
         else let a = (if e = 0 then real f * 2 powi (- 149)
                       else real (2 ^ 23 + f) * 2 powi (int e - 150))
              in Fin (if negative then - a else a))"

text \<open>The six accessors of \<open>DataView\<close> that the fields use.\<close>

definition getUint8 :: "DataView \<Rightarrow> nat \<Rightarrow> js_error + jsnum" where
  "getUint8 view i = map_sum id (\<lambda>bs. Fin (real (le_value bs))) (read_bytes view i 1)"

definition setUint8 :: "DataView \<Rightarrow> nat \<Rightarrow> jsnum \<Rightarrow> js_error + DataView" where
  "setUint8 view i v = write_bytes view i (le_bytes 1 (to_uint 8 v))"

definition getUint32 :: "DataView \<Rightarrow> nat \<Rightarrow> bool \<Rightarrow> js_error + jsnum" where
  "getUint32 view i littleEndian =
     map_sum id (\<lambda>bs. Fin (real (le_value (ordered littleEndian bs)))) (read_bytes view i 4)"

definition setUint32 :: "DataView \<Rightarrow> nat \<Rightarrow> jsnum \<Rightarrow> bool \<Rightarrow> js_error + DataView" where
  "setUint32 view i v littleEndian =
     write_bytes view i (ordered littleEndian (le_bytes 4 (to_uint 32 v)))"

definition getFloat32 :: "DataView \<Rightarrow> nat \<Rightarrow> bool \<Rightarrow> js_error + jsnum" where
  "getFloat32 view i littleEndian =
     map_sum id (\<lambda>bs. float32_value (le_value (ordered littleEndian bs))) (read_bytes view i 4)"

definition setFloat32 :: "DataView \<Rightarrow> nat \<Rightarrow> jsnum \<Rightarrow> bool \<Rightarrow> js_error + DataView" where
  "setFloat32 view i v littleEndian =
     write_bytes view i (ordered littleEndian (le_bytes 4 (float32_bits (fround v))))"

text \<open>
  A field of a schema: its offset, its size, and the two closures over the offset. The
  allocator is the counter \<open>iota\<close>; an \<open>alloc\<close> function returns the field and the
  allocator it has advanced.
\<close>

record Field =
  field_offset :: nat
  field_size :: nat
  field_read :: "DataView \<Rightarrow> nat \<Rightarrow> js_error + jsnum"
  field_write :: "DataView \<Rightarrow> nat \<Rightarrow> jsnum \<Rightarrow> js_error + DataView"

record Allocator =
  iota :: nat

definition UINT8_SIZE :: nat where "UINT8_SIZE = 1"
definition UINT32_SIZE :: nat where "UINT32_SIZE = 4"
definition FLOAT32_SIZE :: nat where "FLOAT32_SIZE = 4"

definition allocUint8Field :: "Allocator \<Rightarrow> Field \<times> Allocator" where
  "allocUint8Field allocator =
     (let offset = iota allocator; size = UINT8_SIZE
      in (\<lparr>field_offset = offset, field_size = size,
           field_read = (\<lambda>view baseOffset. getUint8 view (baseOffset + offset)),
           field_write = (\<lambda>view baseOffset value. setUint8 view (baseOffset + offset) value)\<rparr>,
          allocator\<lparr>iota := iota allocator + size\<rparr>))"

definition allocUint32Field :: "Allocator \<Rightarrow> Field \<times> Allocator" where
  "allocUint32Field allocator =
     (let offset = iota allocator; size = UINT32_SIZE
      in (\<lparr>field_offset = offset, field_size = size,
           field_read = (\<lambda>view baseOffset. getUint32 view (baseOffset + offset) True),
           field_write =
             (\<lambda>view baseOffset value. setUint32 view (baseOffset + offset) value True)\<rparr>,
          allocator\<lparr>iota := iota allocator + size\<rparr>))"

definition allocFloat32Field :: "Allocator \<Rightarrow> Field \<times> Allocator" where
  "allocFloat32Field allocator =
     (let offset = iota allocator; size = FLOAT32_SIZE
      in (\<lparr>field_offset = offset, field_size = size,
           field_read = (\<lambda>view baseOffset. getFloat32 view (baseOffset + offset) True),
           field_write =
             (\<lambda>view baseOffset value. setFloat32 view (baseOffset + offset) value True)\<rparr>,
          allocator\<lparr>iota := iota allocator + size\<rparr>))"

text \<open>
  \<open>HelloStruct\<close>: the properties of the object literal are evaluated in the order they
  are written, each \<open>alloc\<close> call on the allocator the previous one left.
\<close>

record Hello =
  hello_kind :: Field
  hello_id :: Field
  hello_x :: Field
  hello_y :: Field
  hello_hue :: Field
  hello_size :: nat

definition HelloStruct :: Hello where
  "HelloStruct =
     (let allocator = \<lparr>iota = 0\<rparr>;
          (kind, allocator) = allocUint8Field allocator;
          (ident, allocator) = allocUint32Field allocator;
          (x, allocator) = allocFloat32Field allocator;
          (y, allocator) = allocFloat32Field allocator;
          (hue, allocator) = allocUint8Field allocator
      in \<lparr>hello_kind = kind, hello_id = ident, hello_x = x, hello_y = y, hello_hue = hue,
          hello_size = iota allocator\<rparr>)"

text \<open>\<open>MessageKind\<close>: a numeric enum, \<open>Hello = 0\<close> and \<open>PlayerJoined = 1\<close>.\<close>

datatype MessageKind = Hello | PlayerJoined

fun MessageKind_value :: "MessageKind \<Rightarrow> jsnum" where
  "MessageKind_value Hello = Fin 0"
| "MessageKind_value PlayerJoined = Fin 1"

text \<open>
  Writing a value through a field and reading the field back, and writing the five
  fields of a handshake record in declaration order; an error ends the sequence.
\<close>

definition write_then_read :: "Field \<Rightarrow> DataView \<Rightarrow> nat \<Rightarrow> jsnum \<Rightarrow> js_error + jsnum" where
  "write_then_read f view baseOffset value =
     (case field_write f view baseOffset value of
        Inl e \<Rightarrow> Inl e
      | Inr view' \<Rightarrow> field_read f view' baseOffset)"

definition and_then :: "js_error + 'a \<Rightarrow> ('a \<Rightarrow> js_error + 'b) \<Rightarrow> js_error + 'b" where
  "and_then r f = (case r of Inl e \<Rightarrow> Inl e | Inr v \<Rightarrow> f v)"

definition write_hello ::
  "DataView \<Rightarrow> nat \<Rightarrow> jsnum \<Rightarrow> jsnum \<Rightarrow> jsnum \<Rightarrow> jsnum \<Rightarrow> js_error + DataView" where
  "write_hello view baseOffset ident x y h =
     and_then (field_write (hello_kind HelloStruct) view baseOffset (MessageKind_value Hello))
       (\<lambda>view. and_then (field_write (hello_id HelloStruct) view baseOffset ident)
       (\<lambda>view. and_then (field_write (hello_x HelloStruct) view baseOffset x)
       (\<lambda>view. and_then (field_write (hello_y HelloStruct) view baseOffset y)
       (\<lambda>view. field_write (hello_hue HelloStruct) view baseOffset h))))"

text \<open>
  The finite magnitudes of binary32 in normal form: \<open>m * 2 powi (e - 23)\<close> with a
  significand \<open>m\<close> of 24 bits that has its leading bit set unless \<open>e\<close> is the least
  exponent.
\<close>

definition float32_form :: "nat \<Rightarrow> int \<Rightarrow> bool" where
  "float32_form m e \<longleftrightarrow> m < 2 ^ 24 \<and> - 126 \<le> e \<and> e \<le> 127 \<and> (2 ^ 23 \<le> m \<or> e = - 126)"

section \<open>The event protocol and its validators\<close>

text \<open>
  The validators take \<open>any\<close>: a value decoded from the wire. Such a value is
  \<open>undefined\<close>, \<open>null\<close>, a boolean, a number, a string, an array, or an object with its
  own properties, which are data and never functions.
\<close>

datatype jsval =
  Undefined
| Null
| Boolean bool
| Number jsnum
| String string
| Array "jsval list"
| Object "(string \<times> jsval) list"

fun ToBoolean :: "jsval \<Rightarrow> bool" where
  "ToBoolean Undefined = False"
| "ToBoolean Null = False"
| "ToBoolean (Boolean b) = b"
| "ToBoolean (Number n) = (n \<noteq> NaN \<and> n \<noteq> Fin 0)"
| "ToBoolean (String s) = (s \<noteq> [])"
| "ToBoolean (Array xs) = True"
| "ToBoolean (Object ps) = True"

text \<open>
  \<open>a && b\<close>: the value of \<open>a\<close> when it is falsy, and then \<open>b\<close> is not evaluated, so
  that an exception of \<open>b\<close> is not thrown; otherwise \<open>b\<close>.
\<close>

definition and_also :: "js_error + jsval \<Rightarrow> js_error + jsval \<Rightarrow> js_error + jsval" where
  "and_also a b =
     (case a of Inl e \<Rightarrow> Inl e | Inr v \<Rightarrow> if ToBoolean v then b else Inr v)"

text \<open>
  \<open>arg.name\<close> for one of the names \<open>kind\<close>, \<open>id\<close>, \<open>x\<close>, \<open>y\<close>, \<open>hue\<close>, \<open>start\<close> and
  \<open>direction\<close>. It throws on \<open>undefined\<close> and \<open>null\<close>. None of these names is a property
  of a built-in prototype or of an array or a string, so the result is the own property
  of an object, and \<open>undefined\<close> otherwise.
\<close>

fun get_property :: "jsval \<Rightarrow> string \<Rightarrow> js_error + jsval" where
  "get_property Undefined name = Inl TypeError"
| "get_property Null name = Inl TypeError"
| "get_property (Object ps) name =
     Inr (case map_of ps name of Some v \<Rightarrow> v | None \<Rightarrow> Undefined)"
| "get_property _ name = Inr Undefined"

definition isNumber :: "jsval \<Rightarrow> bool" where
  "isNumber arg = (case arg of Number n \<Rightarrow> True | _ \<Rightarrow> False)"

definition isString :: "jsval \<Rightarrow> bool" where
  "isString arg = (case arg of String s \<Rightarrow> True | _ \<Rightarrow> False)"

definition isBoolean :: "jsval \<Rightarrow> bool" where
  "isBoolean arg = (case arg of Boolean b \<Rightarrow> True | _ \<Rightarrow> False)"

text \<open>
  \<open>DIRECTION_VECTORS[arg]\<close> converts \<open>arg\<close> to a property key. \<open>ToString\<close> of a number
  is the parameter \<open>num_to_string\<close>. An array is the join of its elements with commas,
  \<open>undefined\<close> and \<open>null\<close> elements giving the empty string. An object is
  \<open>[object Object]\<close> by \<open>Object.prototype.toString\<close>, unless it has an own property
  \<open>toString\<close>: that one is not callable, and \<open>valueOf\<close> is not callable or returns the
  object, so the conversion throws a \<open>TypeError\<close>.
\<close>

fun ToString :: "(jsnum \<Rightarrow> string) \<Rightarrow> jsval \<Rightarrow> js_error + string"
  and join_elements :: "(jsnum \<Rightarrow> string) \<Rightarrow> jsval list \<Rightarrow> js_error + string"
  and element_string :: "(jsnum \<Rightarrow> string) \<Rightarrow> jsval \<Rightarrow> js_error + string" where
  "ToString num_to_string Undefined = Inr ''undefined''"
| "ToString num_to_string Null = Inr ''null''"
| "ToString num_to_string (Boolean b) = Inr (if b then ''true'' else ''false'')"
| "ToString num_to_string (Number n) = Inr (num_to_string n)"
| "ToString num_to_string (String s) = Inr s"
| "ToString num_to_string (Array xs) = join_elements num_to_string xs"
| "ToString num_to_string (Object ps) =
     (if map_of ps ''toString'' = None then Inr ''[object Object]'' else Inl TypeError)"
| "join_elements num_to_string [] = Inr []"
| "join_elements num_to_string [x] = element_string num_to_string x"
| "join_elements num_to_string (x # y # ys) =
     and_then (element_string num_to_string x)
       (\<lambda>s. and_then (join_elements num_to_string (y # ys)) (\<lambda>t. Inr (s @ '','' @ t)))"
| "element_string num_to_string Undefined = Inr []"
| "element_string num_to_string Null = Inr []"
| "element_string num_to_string (Boolean b) = ToString num_to_string (Boolean b)"
| "element_string num_to_string (Number n) = ToString num_to_string (Number n)"
| "element_string num_to_string (String s) = ToString num_to_string (String s)"
| "element_string num_to_string (Array xs) = ToString num_to_string (Array xs)"
| "element_string num_to_string (Object ps) = ToString num_to_string (Object ps)"

text \<open>
  The keys of the direction table, and the names that every object literal inherits from
  \<open>Object.prototype\<close>; a lookup of one of either is not \<open>undefined\<close>.
\<close>

fun Direction_key :: "Direction \<Rightarrow> string" where
  "Direction_key Left = ''left''"
| "Direction_key Right = ''right''"
| "Direction_key Up = ''up''"
| "Direction_key Down = ''down''"

definition Object_prototype_names :: "string list" where
  "Object_prototype_names =
     [''constructor'', ''__defineGetter__'', ''__defineSetter__'', ''hasOwnProperty'',
      ''__lookupGetter__'', ''__lookupSetter__'', ''isPrototypeOf'', ''propertyIsEnumerable'',
      ''toString'', ''valueOf'', ''__proto__'', ''toLocaleString'']"

definition has_property :: "string \<Rightarrow> bool" where
  "has_property key \<longleftrightarrow>
     key \<in> set (map (Direction_key \<circ> fst) DIRECTION_VECTORS) \<or> key \<in> set Object_prototype_names"

definition isDirection :: "(jsnum \<Rightarrow> string) \<Rightarrow> jsval \<Rightarrow> js_error + bool" where
  "isDirection num_to_string arg =
     and_then (ToString num_to_string arg) (\<lambda>key. Inr (has_property key))"

text \<open>The operands of the \<open>&&\<close> chains of the validators.\<close>

definition kind_is :: "jsval \<Rightarrow> string \<Rightarrow> js_error + jsval" where
  "kind_is arg literal =
     and_then (get_property arg ''kind'') (\<lambda>v. Inr (Boolean (v = String literal)))"

definition number_at :: "jsval \<Rightarrow> string \<Rightarrow> js_error + jsval" where
  "number_at arg name = and_then (get_property arg name) (\<lambda>v. Inr (Boolean (isNumber v)))"

definition boolean_at :: "jsval \<Rightarrow> string \<Rightarrow> js_error + jsval" where
  "boolean_at arg name = and_then (get_property arg name) (\<lambda>v. Inr (Boolean (isBoolean v)))"

definition direction_at :: "(jsnum \<Rightarrow> string) \<Rightarrow> jsval \<Rightarrow> string \<Rightarrow> js_error + jsval" where
  "direction_at num_to_string arg name =
     and_then (get_property arg name)
       (\<lambda>v. and_then (isDirection num_to_string v) (\<lambda>b. Inr (Boolean b)))"

definition isPlayerJoined :: "jsval \<Rightarrow> js_error + jsval" where
  "isPlayerJoined arg =
     and_also (and_also (and_also (and_also (and_also (Inr arg)
       (kind_is arg ''PlayerJoined''))
       (number_at arg ''id''))
       (number_at arg ''x''))
       (number_at arg ''y''))
       (number_at arg ''hue'')"

definition isPlayerLeft :: "jsval \<Rightarrow> js_error + jsval" where
  "isPlayerLeft arg =
     and_also (and_also (Inr arg)
       (kind_is arg ''PlayerLeft''))
       (number_at arg ''id'')"

definition isAmmaMoving :: "(jsnum \<Rightarrow> string) \<Rightarrow> jsval \<Rightarrow> js_error + jsval" where
  "isAmmaMoving num_to_string arg =
     and_also (and_also (and_also (Inr arg)
       (kind_is arg ''AmmaMoving''))
       (boolean_at arg ''start''))
       (direction_at num_to_string arg ''direction'')"

definition isPlayerMoving :: "(jsnum \<Rightarrow> string) \<Rightarrow> jsval \<Rightarrow> js_error + jsval" where
  "isPlayerMoving num_to_string arg =
     and_also (and_also (and_also (and_also (and_also (and_also (Inr arg)
       (kind_is arg ''PlayerMoving''))
       (number_at arg ''id''))
       (number_at arg ''x''))
       (number_at arg ''y''))
       (boolean_at arg ''start''))
       (direction_at num_to_string arg ''direction'')"

text \<open>Decoded payloads: an intent message with a direction, and a departure.\<close>

definition amma_moving :: "jsval \<Rightarrow> jsval" where
  "amma_moving direction =
     Object [(''kind'', String ''AmmaMoving''), (''start'', Boolean True),
             (''direction'', direction)]"

definition player_moving :: "jsval \<Rightarrow> jsval" where
  "player_moving direction =
     Object [(''kind'', String ''PlayerMoving''), (''id'', Number (Fin 7)),
             (''x'', Number (Fin 790)), (''y'', Number (Fin 300)), (''start'', Boolean True),
             (''direction'', direction)]"

section \<open>The message codec\<close>

text \<open>
  \<open>sendMessage\<close> uses two things from outside the module: \<open>JSON.stringify\<close>, which on
  the plain data of an event message returns a string, and the \<open>send\<close> operation of the
  socket, which returns or throws. The model returns the invocations of \<open>send\<close> it has
  made, in order, next to its own result; a character stands for a code unit of the text.
\<close>

datatype socket_call = Send string

definition sendMessage ::
  "('message \<Rightarrow> string) \<Rightarrow> (string \<Rightarrow> js_error option) \<Rightarrow> 'message
     \<Rightarrow> socket_call list \<times> (js_error + jsnum)" where
  "sendMessage stringify send message =
     (let text = stringify message
      in case send text of
           Some e \<Rightarrow> ([Send text], Inl e)
         | None \<Rightarrow> ([Send text], Inr (Fin (real (length text)))))"

section \<open>Properties of the rounding\<close>

lemma search_exp_range: "lo \<le> search_exp n lo x \<and> search_exp n lo x < lo + 2 ^ n"
proof (induction n arbitrary: lo)
  case 0
  show ?case by simp
next
  case (Suc n)
  show ?case using Suc [of lo] Suc [of "lo + 2 ^ n"] by auto
qed

lemma search_exp_lower: "2 powi lo \<le> x \<Longrightarrow> 2 powi (search_exp n lo x) \<le> x"
  by (induction n arbitrary: lo) auto

lemma search_exp_upper: "x < 2 powi (lo + 2 ^ n) \<Longrightarrow> x < 2 powi (search_exp n lo x + 1)"
proof (induction n arbitrary: lo)
  case 0
  then show ?case by simp
next
  case (Suc n)
  show ?case
  proof (cases "2 powi (lo + 2 ^ n) \<le> x")
    case True
    have "x < 2 powi (lo + 2 ^ n + 2 ^ n)" using Suc.prems by (simp add: add.assoc)
    from Suc.IH [OF this] True show ?thesis by simp
  next
    case False
    then have "x < 2 powi (lo + 2 ^ n)" by simp
    from Suc.IH [OF this] False show ?thesis by simp
  qed
qed

lemma rhe_err: "\<bar>of_int (round_half_even x) - x\<bar> \<le> 1 / 2"
  unfolding round_half_even_def Let_def by (auto; linarith)

lemma rhe_of_int [simp]: "round_half_even (of_int n) = n"
  by (simp add: round_half_even_def)


lemma rhe_between: "\<lfloor>x\<rfloor> \<le> round_half_even x \<and> round_half_even x \<le> \<lfloor>x\<rfloor> + 1"
  by (simp add: round_half_even_def Let_def)

lemma rhe_mono: "x \<le> y \<Longrightarrow> round_half_even x \<le> round_half_even y"
proof -
  assume xy: "x \<le> y"
  then have fl: "\<lfloor>x\<rfloor> \<le> \<lfloor>y\<rfloor>" by (rule floor_mono)
  show ?thesis
  proof (cases "\<lfloor>x\<rfloor> = \<lfloor>y\<rfloor>")
    case True
    then show ?thesis using xy by (auto simp: round_half_even_def Let_def)
  next
    case False
    then have "\<lfloor>x\<rfloor> + 1 \<le> \<lfloor>y\<rfloor>" using fl by simp
    then show ?thesis using rhe_between [of x] rhe_between [of y] by linarith
  qed
qed

lemma floor_uminus: "\<lfloor>- x :: real\<rfloor> = (if x = of_int \<lfloor>x\<rfloor> then - \<lfloor>x\<rfloor> else - \<lfloor>x\<rfloor> - 1)"
  using ceiling_altdef [of x] unfolding ceiling_def by (auto split: if_splits; linarith)

lemma rhe_neg: "round_half_even (- x) = - round_half_even x"
proof (cases "x = of_int \<lfloor>x\<rfloor>")
  case True
  then obtain n where "x = of_int n" ..
  then have "- x = of_int (- n)" by simp
  then show ?thesis using \<open>x = of_int n\<close> rhe_of_int by metis
next
  case False
  then have "\<lfloor>- x\<rfloor> = - \<lfloor>x\<rfloor> - 1" by (simp add: floor_uminus)
  then show ?thesis
    by (auto simp: round_half_even_def Let_def)
qed

lemma search_exp_largest:
  "2 powi k \<le> x \<Longrightarrow> k < lo + 2 ^ n \<Longrightarrow> k \<le> search_exp n lo x"
proof (induction n arbitrary: lo)
  case 0
  then show ?case by simp
next
  case (Suc n)
  show ?case
  proof (cases "2 powi (lo + 2 ^ n) \<le> x")
    case True
    show ?thesis
    proof (cases "k < lo + 2 ^ n")
      case True
      then show ?thesis
        using \<open>2 powi (lo + 2 ^ n) \<le> x\<close> search_exp_range [of "lo + 2 ^ n" n x] by simp
    next
      case False
      have "k < lo + 2 ^ n + 2 ^ n" using Suc.prems(2) by simp
      from Suc.IH [OF Suc.prems(1) this] True show ?thesis by simp
    qed
  next
    case False
    then have "(2::real) powi k < 2 powi (lo + 2 ^ n)" using Suc.prems(1) by simp
    then have "k < lo + 2 ^ n"
      using power_int_increasing [of "lo + 2 ^ n" k "2::real"] by (cases "k < lo + 2 ^ n") auto
    from Suc.IH [OF Suc.prems(1) this] False show ?thesis by simp
  qed
qed

lemma round_to_neg:
  "round_to bits p emin emax (- x) = js_neg (round_to bits p emin emax x)"
proof -
  define u :: real where "u = 2 powi (min emax (search_exp bits emin \<bar>x\<bar>) - int p + 1)"
  define y :: real where "y = of_int (round_half_even (x / u)) * u"
  have y: "of_int (round_half_even (- x / u)) * u = - y"
    using rhe_neg [of "x / u"] by (simp add: y_def)
  define top :: real where "top = 2 powi (emax + 1)"
  have "0 < top" by (simp add: top_def)
  then show ?thesis
    unfolding round_to_def Let_def abs_minus_cancel u_def [symmetric] y y_def [symmetric]
      top_def [symmetric]
    by auto
qed

lemma rhe_nonneg: "0 \<le> x \<Longrightarrow> 0 \<le> round_half_even x"
  using rhe_mono [of 0 x] rhe_of_int [of 0] by simp

lemma round_to_nonneg:
  assumes "0 \<le> x"
  shows "round_to bits p emin emax x = PInf
         \<or> (\<exists>y. round_to bits p emin emax x = Fin y \<and> 0 \<le> y)"
proof -
  define u :: real where "u = 2 powi (min emax (search_exp bits emin \<bar>x\<bar>) - int p + 1)"
  have u: "0 < u" by (simp add: u_def)
  have "0 \<le> x / u" using assms u by simp
  then have "0 \<le> round_half_even (x / u)" by (rule rhe_nonneg)
  then have y: "0 \<le> of_int (round_half_even (x / u)) * u" using u by simp
  define top :: real where "top = 2 powi (emax + 1)"
  have "0 < top" by (simp add: top_def)
  with y show ?thesis
    unfolding round_to_def Let_def u_def [symmetric] top_def [symmetric] by auto
qed

lemma powi_split: "(2::real) ^ p * 2 powi (e - int p + 1) = 2 powi (e + 1)"
proof -
  have "(2::real) powi (int p) * 2 powi (e - int p + 1) = 2 powi (int p + (e - int p + 1))"
    by (rule power_int_add [symmetric]) simp
  then show ?thesis by (simp add: algebra_simps)
qed

lemma powi_half: "(2::real) powi (e - int p + 1) / 2 = 2 powi (e - int p)"
proof -
  have "(2::real) powi (e - int p + 1) = 2 powi (e - int p) * 2 powi 1"
    by (rule power_int_add) simp
  then show ?thesis by simp
qed

lemma rhe_tie: "round_half_even (of_int n + 1 / 2) = (if even n then n else n + 1)"
proof -
  have "\<lfloor>of_int n + 1 / 2 :: real\<rfloor> = n" by linarith
  then show ?thesis by (simp add: round_half_even_def Let_def)
qed

lemma rhe_le_int: "x \<le> of_int n \<Longrightarrow> round_half_even x \<le> n"
  using rhe_mono [of x "of_int n"] by simp

lemma rhe_ge_int: "of_int n \<le> x \<Longrightarrow> n \<le> round_half_even x"
  using rhe_mono [of "of_int n" x] by simp

text \<open>The rounding of a non-negative real, by the exponent the search finds.\<close>

lemma round_to_top_binade:
  assumes p: "1 \<le> p" and x: "0 \<le> x" and s: "emax \<le> search_exp bits emin x"
  shows "round_to bits p emin emax x =
           (if x < 2 powi (emax + 1) - 2 powi (emax - int p)
            then Fin (of_int (round_half_even (x / 2 powi (emax - int p + 1)))
                        * 2 powi (emax - int p + 1))
            else PInf)"
    and "x < 2 powi (emax + 1) - 2 powi (emax - int p) \<Longrightarrow>
         real_of_int (round_half_even (x / 2 powi (emax - int p + 1))) * 2 powi (emax - int p + 1)
           \<le> 2 powi (emax + 1) - 2 powi (emax - int p + 1)"
proof -
  define u :: real where "u = 2 powi (emax - int p + 1)"
  define m where "m = round_half_even (x / u)"
  define top :: real where "top = 2 powi (emax + 1)"
  have u: "0 < u" by (simp add: u_def)
  have top: "top = 2 ^ p * u" by (simp add: top_def u_def powi_split)
  have half: "2 powi (emax - int p) = u / 2" by (simp add: u_def powi_half)
  have e: "min emax (search_exp bits emin \<bar>x\<bar>) = emax" using s x by simp
  have m0: "0 \<le> m" unfolding m_def using x u by (intro rhe_nonneg) simp
  have y0: "0 \<le> of_int m * u" using m0 u by simp
  have tpos: "0 < top" by (simp add: top_def)
  have rt: "round_to bits p emin emax x = (if top \<le> of_int m * u then PInf else Fin (of_int m * u))"
    using y0 tpos unfolding round_to_def Let_def e u_def [symmetric] m_def [symmetric] top_def [symmetric]
    by auto
  have small: "of_int m * u \<le> top - u" if "x < top - u / 2"
  proof -
    have "x / u < 2 ^ p - 1 / 2" using that u by (simp add: top field_simps)
    moreover have "of_int m - x / u \<le> 1 / 2" using rhe_err [of "x / u"] unfolding m_def by linarith
    ultimately have "real_of_int m < 2 ^ p" by linarith
    then have "real_of_int m < real_of_int (2 ^ p)" by simp
    then have "m < 2 ^ p" by (simp only: of_int_less_iff)
    then have "m \<le> 2 ^ p - 1" by simp
    then have "real_of_int m \<le> real_of_int (2 ^ p - 1)" by (simp only: of_int_le_iff)
    then have "real_of_int m \<le> 2 ^ p - 1" by simp
    then have "of_int m * u \<le> (2 ^ p - 1) * u" using u by (simp only: mult_le_cancel_right_pos)
    then show ?thesis by (simp add: top algebra_simps)
  qed
  have big: "top \<le> of_int m * u" if "\<not> x < top - u / 2"
  proof -
    have "(2 ^ p - 1 :: int) + 1 = 2 ^ p" by simp
    have odd: "odd (2 ^ p - 1 :: int)" using p by simp
    have "real_of_int (2 ^ p - 1) + 1 / 2 \<le> x / u" using that u by (simp add: top field_simps)
    then have "round_half_even (real_of_int (2 ^ p - 1) + 1 / 2) \<le> m"
      unfolding m_def by (rule rhe_mono)
    then have "(2 ^ p - 1) + 1 \<le> m" using odd by (simp only: rhe_tie if_False)
    then have "2 ^ p \<le> m" by simp
    then have "real_of_int (2 ^ p) \<le> of_int m" by (simp only: of_int_le_iff)
    then have "(2 ^ p :: real) \<le> of_int m" by simp
    then show ?thesis using u by (simp add: top)
  qed
  show "round_to bits p emin emax x =
           (if x < 2 powi (emax + 1) - 2 powi (emax - int p)
            then Fin (of_int (round_half_even (x / 2 powi (emax - int p + 1)))
                        * 2 powi (emax - int p + 1))
            else PInf)"
    unfolding rt half u_def [symmetric] m_def [symmetric] top_def [symmetric]
    using small big u by (auto simp: not_le)
  show "real_of_int (round_half_even (x / 2 powi (emax - int p + 1))) * 2 powi (emax - int p + 1)
           \<le> 2 powi (emax + 1) - 2 powi (emax - int p + 1)"
    if "x < 2 powi (emax + 1) - 2 powi (emax - int p)"
    using small that unfolding half u_def [symmetric] m_def [symmetric] top_def [symmetric] by simp
qed

lemma round_to_low_binade:
  assumes x: "0 \<le> x" and s: "search_exp bits emin x < emax" and fmt: "emax < emin + 2 ^ bits"
  shows "x < 2 powi emax"
    and "\<exists>y. round_to bits p emin emax x = Fin y \<and> 0 \<le> y \<and> y \<le> 2 powi emax"
proof -
  define e where "e = search_exp bits emin x"
  define u :: real where "u = 2 powi (e - int p + 1)"
  define m where "m = round_half_even (x / u)"
  have u: "0 < u" by (simp add: u_def)
  show lt: "x < 2 powi emax"
    using search_exp_largest [of emax x emin bits] s fmt by (cases "x < 2 powi emax") auto
  have "(2::real) powi emax \<le> 2 powi (emin + 2 ^ bits)"
    using fmt by (intro power_int_increasing) auto
  with lt have "x < 2 powi (emin + 2 ^ bits)" by simp
  then have xe: "x < 2 powi (e + 1)" unfolding e_def by (rule search_exp_upper)
  have pu: "2 ^ p * u = 2 powi (e + 1)" by (simp add: u_def powi_split)
  have "x < 2 ^ p * u" using xe by (simp only: pu)
  then have "x / u < 2 ^ p" using u by (simp add: field_simps)
  then have "x / u \<le> real_of_int (2 ^ p)" by simp
  then have "m \<le> 2 ^ p" unfolding m_def by (rule rhe_le_int)
  then have "real_of_int m \<le> real_of_int (2 ^ p)" by (simp only: of_int_le_iff)
  then have "real_of_int m * u \<le> 2 ^ p * u" using u by simp
  then have "real_of_int m * u \<le> 2 powi (e + 1)" by (simp only: pu)
  also have "\<dots> \<le> 2 powi emax" using s by (intro power_int_increasing) (auto simp: e_def)
  finally have yle: "real_of_int m * u \<le> 2 powi emax" .
  have "(2::real) powi emax < 2 powi (emax + 1)" by (intro power_int_strict_increasing) auto
  with yle have ylt: "real_of_int m * u < 2 powi (emax + 1)" by simp
  have m0: "0 \<le> m" unfolding m_def using x u by (intro rhe_nonneg) simp
  then have y0: "0 \<le> real_of_int m * u" using u by simp
  have e: "min emax (search_exp bits emin \<bar>x\<bar>) = e" using s x by (simp add: e_def)
  define top :: real where "top = 2 powi (emax + 1)"
  have "0 < top" by (simp add: top_def)
  then have "round_to bits p emin emax x = Fin (real_of_int m * u)"
    using y0 ylt
    unfolding round_to_def Let_def e u_def [symmetric] m_def [symmetric] top_def [symmetric]
    by auto
  with y0 yle show "\<exists>y. round_to bits p emin emax x = Fin y \<and> 0 \<le> y \<and> y \<le> 2 powi emax"
    by blast
qed

lemma emax_le_largest: "1 \<le> p \<Longrightarrow> 2 powi emax \<le> largest p emax"
proof -
  assume p: "1 \<le> p"
  have a: "(2::real) powi (emax + 1) = 2 powi emax * 2 powi 1" by (rule power_int_add) simp
  have "(2::real) powi (emax - int p + 1) \<le> 2 powi emax"
    using p by (intro power_int_increasing) auto
  then show ?thesis unfolding largest_def a by simp
qed

lemma largest_lt_threshold: "largest p emax < threshold p emax"
proof -
  have "(2::real) powi (emax - int p) < 2 powi (emax - int p + 1)"
    by (intro power_int_strict_increasing) auto
  then show ?thesis by (simp add: largest_def threshold_def)
qed

lemma round_to_nonneg_cases:
  assumes p: "1 \<le> p" and fmt: "emax < emin + 2 ^ bits" and x: "0 \<le> x"
  shows "if x < threshold p emax
         then \<exists>y. round_to bits p emin emax x = Fin y \<and> 0 \<le> y \<and> y \<le> largest p emax
         else round_to bits p emin emax x = PInf"
proof (cases "emax \<le> search_exp bits emin x")
  case True
  show ?thesis
    using round_to_top_binade [OF p x True] round_to_nonneg [OF x, of bits p emin emax]
    unfolding threshold_def largest_def by (auto split: if_splits)
next
  case False
  then have s: "search_exp bits emin x < emax" by simp
  have "x < 2 powi emax" using x s fmt by (rule round_to_low_binade)
  then have "x < threshold p emax"
    using emax_le_largest [OF p, of emax] largest_lt_threshold [of p emax] by linarith
  moreover have "\<exists>y. round_to bits p emin emax x = Fin y \<and> 0 \<le> y \<and> y \<le> 2 powi emax"
    using x s fmt by (rule round_to_low_binade)
  ultimately show ?thesis using emax_le_largest [OF p, of emax] by fastforce
qed

lemma round_to_finite_iff:
  assumes p: "1 \<le> p" and fmt: "emax < emin + 2 ^ bits"
  shows "is_finite (round_to bits p emin emax x) \<longleftrightarrow> \<bar>x\<bar> < threshold p emax"
proof (cases "0 \<le> x")
  case True
  then show ?thesis using round_to_nonneg_cases [OF p fmt True] by (auto split: if_splits)
next
  case False
  then have x: "0 \<le> - x" by simp
  have "round_to bits p emin emax x = js_neg (round_to bits p emin emax (- x))"
    using round_to_neg [of bits p emin emax "- x"] by simp
  then show ?thesis using round_to_nonneg_cases [OF p fmt x] False by (auto split: if_splits)
qed

lemma round_to_bound:
  assumes p: "1 \<le> p" and fmt: "emax < emin + 2 ^ bits"
    and r: "round_to bits p emin emax x = Fin y"
  shows "\<bar>y\<bar> \<le> largest p emax"
proof (cases "0 \<le> x")
  case True
  then show ?thesis using round_to_nonneg_cases [OF p fmt True] r by (auto split: if_splits)
next
  case False
  then have x: "0 \<le> - x" by simp
  have "round_to bits p emin emax x = js_neg (round_to bits p emin emax (- x))"
    using round_to_neg [of bits p emin emax "- x"] by simp
  then show ?thesis using round_to_nonneg_cases [OF p fmt x] r by (auto split: if_splits)
qed

lemma rnd_neg: "rnd (- x) = js_neg (rnd x)"
  by (simp add: rnd_def round_to_neg)

lemma rnd_finite_iff: "is_finite (rnd x) \<longleftrightarrow> \<bar>x\<bar> < threshold 53 1023"
  unfolding rnd_def by (rule round_to_finite_iff) simp_all

lemma rnd_bound: "rnd x = Fin y \<Longrightarrow> \<bar>y\<bar> \<le> largest 53 1023"
  unfolding rnd_def by (rule round_to_bound [of 53 1023 "- 1022" 11]) simp_all

lemma rnd_nonneg: "0 \<le> x \<Longrightarrow> rnd x = PInf \<or> (\<exists>y. rnd x = Fin y \<and> 0 \<le> y)"
  unfolding rnd_def by (rule round_to_nonneg)

lemma gap_64: "largest 53 1023 + 2 ^ 969 < threshold 53 1023"
proof -
  have a: "(2::real) powi (1023 - int 53 + 1) = 2 powi (1023 - int 53) * 2 powi 1"
    by (rule power_int_add) simp
  have "(2::real) powi (1023 - int 53) = 2 ^ 970" by (simp add: power_int_def)
  moreover have "(2::real) ^ 969 < 2 ^ 970" by (rule power_strict_increasing) simp_all
  ultimately show ?thesis unfolding largest_def threshold_def a by simp
qed

lemma trunc_nonneg: "0 \<le> q \<Longrightarrow> of_int (trunc q) \<le> q \<and> q < of_int (trunc q) + 1"
  unfolding trunc_def by (simp; linarith)

lemma trunc_neg: "q < 0 \<Longrightarrow> q \<le> of_int (trunc q) \<and> of_int (trunc q) < q + 1"
  unfolding trunc_def by (simp; linarith)

lemma fmod_nonneg:
  assumes b: "0 < b" and a: "0 \<le> a"
  shows "0 \<le> fmod a b \<and> fmod a b < b"
proof -
  define k where "k = trunc (a / b)"
  have "0 \<le> a / b" using a b by simp
  then have "of_int k \<le> a / b \<and> a / b < of_int k + 1" unfolding k_def by (rule trunc_nonneg)
  then have "b * of_int k \<le> a \<and> a < b * (of_int k + 1)" using b by (simp add: field_simps)
  then show ?thesis unfolding fmod_def k_def [symmetric] by (simp add: algebra_simps)
qed

lemma fmod_neg:
  assumes b: "0 < b" and a: "a < 0"
  shows "- b < fmod a b \<and> fmod a b \<le> 0"
proof -
  define k where "k = trunc (a / b)"
  have "a / b < 0" using a b by (simp add: field_simps)
  then have "a / b \<le> of_int k \<and> of_int k < a / b + 1" unfolding k_def by (rule trunc_neg)
  then have "a \<le> b * of_int k \<and> b * of_int k < a + b" using b by (simp add: field_simps)
  then show ?thesis unfolding fmod_def k_def [symmetric] by (simp add: algebra_simps)
qed

lemma fmod_abs: "0 < b \<Longrightarrow> - b < fmod a b \<and> fmod a b < b"
  using fmod_nonneg [of b a] fmod_neg [of b a] by (cases "0 \<le> a") auto

lemma fmod_small: "0 \<le> a \<Longrightarrow> a < b \<Longrightarrow> fmod a b = a"
proof -
  assume a: "0 \<le> a" "a < b"
  then have "0 \<le> a / b" "a / b < 1" by simp_all
  then have "\<lfloor>a / b\<rfloor> = 0" by linarith
  then show ?thesis using \<open>0 \<le> a / b\<close> by (simp add: fmod_def trunc_def)
qed

lemma fmod_shift: "0 \<le> a \<Longrightarrow> a < b \<Longrightarrow> fmod (a + b) b = a"
proof -
  assume a: "0 \<le> a" "a < b"
  then have b: "0 < b" by simp
  have "(a + b) / b = a / b + 1" using b by (simp add: field_simps)
  moreover have "0 \<le> a / b" "a / b < 1" using a by simp_all
  ultimately have "\<lfloor>(a + b) / b\<rfloor> = 1" "0 \<le> (a + b) / b" by (linarith, linarith)
  then show ?thesis by (simp add: fmod_def trunc_def)
qed

text \<open>The wrap of any finite number is in \<open>[0, b)\<close>, for a bound far from overflow.\<close>

lemma properMod_range:
  assumes b: "0 < b" and small: "b \<le> 2 ^ 968"
  shows "\<exists>z. properMod (Fin a) (Fin b) = Fin z \<and> 0 \<le> z \<and> z < b"
proof -
  define r where "r = fmod a b"
  have r: "- b < r" "r < b" using fmod_abs [OF b, of a] by (simp_all add: r_def)
  then have t0: "0 \<le> r + b" by simp
  have "0 \<le> largest 53 1023" using emax_le_largest [of 53 1023] zero_less_power_int [of "2::real" 1023] by linarith
  moreover have "(2::real) ^ 968 + 2 ^ 968 \<le> 2 ^ 969" by simp
  ultimately have "\<bar>r + b\<bar> < threshold 53 1023" using r small gap_64 by linarith
  then have "is_finite (rnd (r + b))" by (simp add: rnd_finite_iff)
  with rnd_nonneg [OF t0] obtain y where y: "rnd (r + b) = Fin y" "0 \<le> y" by auto
  have "properMod (Fin a) (Fin b) = Fin (fmod y b)"
    using b y by (simp add: properMod_def r_def [symmetric])
  then show ?thesis using fmod_nonneg [OF b y(2)] by simp
qed

text \<open>A result of the search above its start is a true lower bound.\<close>

lemma search_exp_above:
  "lo < search_exp n lo x \<Longrightarrow> 2 powi (search_exp n lo x) \<le> x"
proof (induction n arbitrary: lo)
  case 0
  then show ?case by simp
next
  case (Suc n)
  show ?case
  proof (cases "2 powi (lo + 2 ^ n) \<le> x")
    case True
    then show ?thesis using search_exp_lower [of "lo + 2 ^ n" x n] by simp
  next
    case False
    then show ?thesis using Suc by simp
  qed
qed

section \<open>Monotonicity of the rounding\<close>

lemma search_exp_mono: "a \<le> b \<Longrightarrow> search_exp n lo a \<le> search_exp n lo b"
proof (induction n arbitrary: lo)
  case 0
  show ?case by simp
next
  case (Suc n)
  show ?case
  proof (cases "2 powi (lo + 2 ^ n) \<le> a")
    case True
    then have "2 powi (lo + 2 ^ n) \<le> b" using Suc.prems by simp
    then show ?thesis using True Suc.IH [OF Suc.prems] by simp
  next
    case False
    show ?thesis
    proof (cases "2 powi (lo + 2 ^ n) \<le> b")
      case True
      then show ?thesis
        using False search_exp_range [of lo n a] search_exp_range [of "lo + 2 ^ n" n b] by simp
    next
      case b: False
      then show ?thesis using False Suc.IH [OF Suc.prems] by simp
    qed
  qed
qed

lemma round_to_rounded:
  "round_to bits p emin emax x =
     (let y = rounded bits p emin emax x
      in if 2 powi (emax + 1) \<le> y then PInf
         else if y \<le> - (2 powi (emax + 1)) then NInf
         else Fin y)"
  by (simp add: round_to_def rounded_def Let_def)

lemma rounded_mono_nonneg:
  assumes p: "1 \<le> p" and fmt: "emax < emin + 2 ^ bits" and ab: "0 \<le> a" "a \<le> b"
  shows "rounded bits p emin emax a \<le> rounded bits p emin emax b"
proof -
  define sa where "sa = search_exp bits emin a"
  define sb where "sb = search_exp bits emin b"
  define ea where "ea = min emax sa"
  define eb where "eb = min emax sb"
  define ua :: real where "ua = 2 powi (ea - int p + 1)"
  define ub :: real where "ub = 2 powi (eb - int p + 1)"
  have b0: "0 \<le> b" using ab by simp
  have ua: "0 < ua" and ub: "0 < ub" by (simp_all add: ua_def ub_def)
  have ra: "rounded bits p emin emax a = of_int (round_half_even (a / ua)) * ua"
    using ab(1) by (simp add: rounded_def Let_def ua_def ea_def sa_def)
  have rb: "rounded bits p emin emax b = of_int (round_half_even (b / ub)) * ub"
    using b0 by (simp add: rounded_def Let_def ub_def eb_def sb_def)
  have s: "sa \<le> sb" unfolding sa_def sb_def using ab(2) by (rule search_exp_mono)
  then have e: "ea \<le> eb" by (simp add: ea_def eb_def)
  show ?thesis
  proof (cases "ea = eb")
    case True
    then have u: "ua = ub" by (simp add: ua_def ub_def)
    have "a / ub \<le> b / ub" using ab(2) ub by (simp add: divide_right_mono)
    then have "round_half_even (a / ub) \<le> round_half_even (b / ub)" by (rule rhe_mono)
    then have "real_of_int (round_half_even (a / ub)) \<le> real_of_int (round_half_even (b / ub))"
      by (simp only: of_int_le_iff)
    then show ?thesis unfolding ra rb u using ub by (simp only: mult_le_cancel_right_pos)
  next
    case False
    then have lt: "ea < eb" using e by simp
    then have ea: "ea = sa" "sa < emax" by (auto simp: ea_def eb_def)
    have "a < 2 powi emax"
      using search_exp_largest [of emax a emin bits] ea(2) fmt
      by (cases "a < 2 powi emax") (auto simp: sa_def)
    moreover have "(2::real) powi emax \<le> 2 powi (emin + 2 ^ bits)"
      using fmt by (intro power_int_increasing) simp_all
    ultimately have "a < 2 powi (emin + 2 ^ bits)" by simp
    then have "a < 2 powi (sa + 1)" unfolding sa_def by (rule search_exp_upper)
    then have "a < 2 ^ p * ua" by (simp only: ua_def ea(1) powi_split)
    then have "a / ua < 2 ^ p" using ua by (simp add: field_simps)
    then have "a / ua \<le> real_of_int (2 ^ p)" by simp
    then have "round_half_even (a / ua) \<le> 2 ^ p" by (rule rhe_le_int)
    then have "real_of_int (round_half_even (a / ua)) \<le> real_of_int (2 ^ p)"
      by (simp only: of_int_le_iff)
    then have "real_of_int (round_half_even (a / ua)) \<le> 2 ^ p" by simp
    then have "real_of_int (round_half_even (a / ua)) * ua \<le> 2 ^ p * ua"
      using ua by (simp only: mult_le_cancel_right_pos)
    also have "2 ^ p * ua = 2 powi (ea + 1)" by (simp only: ua_def powi_split)
    also have "\<dots> \<le> 2 powi eb" using lt by (intro power_int_increasing) simp_all
    finally have low: "rounded bits p emin emax a \<le> 2 powi eb" by (simp only: ra)
    have "emin \<le> sa" unfolding sa_def using search_exp_range [of emin bits a] by simp
    then have "emin < sb" using lt ea by (simp add: eb_def)
    then have "2 powi sb \<le> b" unfolding sb_def by (rule search_exp_above)
    moreover have "(2::real) powi eb \<le> 2 powi sb"
      by (intro power_int_increasing) (simp_all add: eb_def)
    ultimately have bb: "2 powi eb \<le> b" by simp
    obtain q where q: "p = Suc q" using p by (cases p) simp_all
    have "(2::real) ^ q * ub = 2 powi eb"
      using powi_split [of q "eb - 1"] by (simp add: ub_def q algebra_simps)
    then have "2 ^ q * ub \<le> b" using bb by simp
    then have "2 ^ q \<le> b / ub" using ub by (simp add: field_simps)
    then have "real_of_int (2 ^ q) \<le> b / ub" by simp
    then have "2 ^ q \<le> round_half_even (b / ub)" by (rule rhe_ge_int)
    then have "real_of_int (2 ^ q) \<le> real_of_int (round_half_even (b / ub))"
      by (simp only: of_int_le_iff)
    then have "2 ^ q \<le> real_of_int (round_half_even (b / ub))" by simp
    then have "2 ^ q * ub \<le> real_of_int (round_half_even (b / ub)) * ub"
      using ub by (simp only: mult_le_cancel_right_pos)
    then have "2 powi eb \<le> rounded bits p emin emax b"
      using \<open>(2::real) ^ q * ub = 2 powi eb\<close> by (simp only: rb)
    with low show ?thesis by simp
  qed
qed

lemma rnd_mono_nonneg:
  assumes "0 \<le> a" "a \<le> b" and "rnd a = Fin y" "rnd b = Fin z"
  shows "y \<le> z"
proof -
  have "rounded 11 53 (- 1022) 1023 a \<le> rounded 11 53 (- 1022) 1023 b"
    using assms(1,2) by (intro rounded_mono_nonneg) simp_all
  moreover have "y = rounded 11 53 (- 1022) 1023 a"
    using assms(3) unfolding rnd_def round_to_rounded Let_def by (auto split: if_splits)
  moreover have "z = rounded 11 53 (- 1022) 1023 b"
    using assms(4) unfolding rnd_def round_to_rounded Let_def by (auto split: if_splits)
  ultimately show ?thesis by simp
qed

text \<open>Every integer of magnitude below \<open>2 ^ 53\<close> is a double.\<close>

lemma is_double_of_int:
  assumes "\<bar>n\<bar> < 2 ^ 53"
  shows "is_double (of_int n)"
proof -
  define x :: real where "x = of_int n"
  define s where "s = search_exp 11 (- 1022) \<bar>x\<bar>"
  define e where "e = min 1023 s"
  define u :: real where "u = 2 powi (e - 52)"
  have ax: "\<bar>x\<bar> < 2 ^ 53"
  proof -
    have "real_of_int \<bar>n\<bar> < real_of_int (2 ^ 53)" using assms by (simp only: of_int_less_iff)
    then show ?thesis by (simp add: x_def)
  qed
  have s: "s \<le> 52"
  proof (rule ccontr)
    assume "\<not> s \<le> 52"
    then have b: "53 \<le> s" by simp
    then have "- 1022 < s" by simp
    then have "2 powi s \<le> \<bar>x\<bar>" unfolding s_def by (rule search_exp_above)
    moreover have "(2::real) powi 53 \<le> 2 powi s" using b by (intro power_int_increasing) simp_all
    ultimately show False using ax by simp
  qed
  then have e: "e = s" "e \<le> 52" by (simp_all add: e_def)
  define k where "k = nat (52 - e)"
  have "(2::real) powi (e - 52) = 2 powi (- int k)" using e(2) by (simp add: k_def)
  then have uk: "u = 1 / 2 ^ k" by (simp add: u_def power_int_minus_divide)
  have "x / u = of_int (n * 2 ^ k)" by (simp add: uk x_def)
  then have "round_half_even (x / u) = n * 2 ^ k" by (simp only: rhe_of_int)
  then have y: "of_int (round_half_even (x / u)) * u = x" by (simp add: uk x_def)
  have "(2::real) ^ 53 \<le> 2 powi (1023 + 1)"
    using power_int_increasing [of 53 1024 "2::real"] by simp
  then have fin: "\<not> 2 powi (1023 + 1) \<le> x" "\<not> x \<le> - (2 powi (1023 + 1))"
    using ax by linarith+
  have "e - int 53 + 1 = e - 52" by simp
  then have "rnd x = Fin x"
    unfolding rnd_def round_to_def Let_def s_def [symmetric] e_def [symmetric]
    using y fin by (simp add: u_def)
  then show ?thesis by (simp add: is_double_def x_def)
qed


section \<open>Evaluating the rounding\<close>

text \<open>The search unfolds on a numeral without turning it into a chain of \<open>Suc\<close>.\<close>

lemma search_exp_numeral:
  "search_exp (numeral k) lo x =
     (if 2 powi (lo + 2 ^ pred_numeral k) \<le> x
      then search_exp (pred_numeral k) (lo + 2 ^ pred_numeral k) x
      else search_exp (pred_numeral k) lo x)"
  by (simp add: numeral_eq_Suc)

lemmas round_eval = round_to_def round_half_even_def Let_def search_exp_numeral

lemmas rnd_eval = rnd_def round_eval

lemma rnd_0 [simp]: "rnd 0 = Fin 0"
  by (simp add: rnd_eval)

lemma rnd_1 [simp]: "rnd 1 = Fin 1"
  by (simp add: rnd_eval)

lemma rnd_2 [simp]: "rnd 2 = Fin 2"
  by (simp add: rnd_eval)

lemma rnd_800 [simp]: "rnd 800 = Fin 800"
  by (simp add: rnd_eval)

lemma rnd_tenth: "rnd (1 / 10) = Fin (3602879701896397 / 36028797018963968)"
  by (simp add: rnd_eval)

section \<open>The movement engine: lemmas\<close>

lemma rnd_half [simp]: "rnd (1 / 2) = Fin (1 / 2)"
  by (simp add: rnd_eval)

lemma rnd_500 [simp]: "rnd 500 = Fin 500"
  by (simp add: rnd_eval)

lemma rnd_250 [simp]: "rnd 250 = Fin 250"
  by (simp add: rnd_eval)

lemma rnd_600 [simp]: "rnd 600 = Fin 600"
  by (simp add: rnd_eval)

lemma WORLD_WIDTH_eq: "WORLD_WIDTH = Fin 800"
  by (simp add: WORLD_WIDTH_def WORLD_FACTOR_def)

lemma WORLD_HEIGHT_eq: "WORLD_HEIGHT = Fin 600"
  by (simp add: WORLD_HEIGHT_def WORLD_FACTOR_def)

lemma sum_directions_eq:
  "sum_directions m =
     (js_add (if m Left then Fin (- 1) else Fin 0) (if m Right then Fin 1 else Fin 0),
      js_add (if m Up then Fin (- 1) else Fin 0) (if m Down then Fin 1 else Fin 0))"
  by (simp add: sum_directions_def DIRECTION_VECTORS_def add_direction_def rnd_neg)

text \<open>The scaled direction of a tick: each component is one of five values.\<close>

lemma normalize_sum_directions:
  "fst (normalize_direction (sum_directions m)) \<in> unit_steps \<and> snd (normalize_direction (sum_directions m)) \<in> unit_steps"
  by (simp add: sum_directions_eq normalize_direction_def squared_length_def js_strict_neq_def Let_def
      unit_steps_def rnd_neg)

lemma in_bounds_iff:
  "in_bounds p \<longleftrightarrow>
     (\<exists>x y. player_x p = Fin x \<and> player_y p = Fin y \<and> 0 \<le> x \<and> x < 800 \<and> 0 \<le> y \<and> y < 600)"
  by (cases "player_x p"; cases "player_y p")
     (auto simp: in_bounds_def js_le_def WORLD_WIDTH_eq WORLD_HEIGHT_eq)

text \<open>A product with a smaller factor does not overflow where the larger one does not.\<close>

lemma js_mul_finite_mono:
  assumes "is_finite (js_mul (Fin c) dt)" and "\<bar>d\<bar> \<le> \<bar>c\<bar>"
  shows "is_finite (js_mul (Fin d) dt)"
proof (cases dt)
  case (Fin t)
  have "\<bar>d * t\<bar> \<le> \<bar>c * t\<bar>" using assms(2) by (simp add: abs_mult mult_right_mono)
  then show ?thesis using assms(1) Fin by (simp add: rnd_finite_iff)
next
  case NaN then show ?thesis using assms(1) by simp
next
  case PInf
  then show ?thesis using assms by (auto simp: signed_inf_def split: if_splits)
next
  case NInf
  then show ?thesis using assms by (auto simp: signed_inf_def split: if_splits)
qed

lemma js_mul_Fin_bounded:
  assumes "is_finite (js_mul (Fin c) dt)"
  shows "\<exists>r. js_mul (Fin c) dt = Fin r \<and> \<bar>r\<bar> \<le> largest 53 1023"
proof (cases dt)
  case (Fin t)
  then obtain r where "rnd (c * t) = Fin r" using assms by (cases "rnd (c * t)") auto
  then show ?thesis using Fin rnd_bound by auto
qed (use assms in \<open>auto simp: signed_inf_def split: if_splits\<close>)

lemma displacement_bounded:
  assumes "is_finite (js_mul PLAYER_SPEED dt)" and "d \<in> unit_steps"
  shows "\<exists>r. displacement d dt = Fin r \<and> \<bar>r\<bar> \<le> largest 53 1023"
proof -
  have "\<exists>c. js_mul d PLAYER_SPEED = Fin c \<and> \<bar>c\<bar> \<le> \<bar>500\<bar>"
    using assms(2) by (auto simp: unit_steps_def PLAYER_SPEED_def rnd_neg)
  then obtain c where c: "js_mul d PLAYER_SPEED = Fin c" "\<bar>c\<bar> \<le> \<bar>500\<bar>" by blast
  have "is_finite (js_mul (Fin c) dt)"
    using assms(1) c(2) unfolding PLAYER_SPEED_def by (rule js_mul_finite_mono)
  then show ?thesis unfolding displacement_def c(1) by (rule js_mul_Fin_bounded)
qed

lemma wrap_step:
  assumes v: "0 \<le> v" "v \<le> 2 ^ 968" and r: "\<bar>r\<bar> \<le> largest 53 1023"
    and b: "0 < b" "b \<le> 2 ^ 968"
  shows "\<exists>z. properMod (js_add (Fin v) (Fin r)) (Fin b) = Fin z \<and> 0 \<le> z \<and> z < b"
proof -
  have "(2::real) ^ 968 \<le> 2 ^ 969" by simp
  then have "\<bar>v + r\<bar> < threshold 53 1023" using v r gap_64 by linarith
  then have "is_finite (rnd (v + r))" by (simp add: rnd_finite_iff)
  then obtain a where "rnd (v + r) = Fin a" by (cases "rnd (v + r)") auto
  then show ?thesis using properMod_range [OF b, of a] by simp
qed

lemma updatePlayer_in_bounds:
  assumes "in_bounds p" and "is_finite (js_mul PLAYER_SPEED dt)"
  shows "in_bounds (updatePlayer p dt)"
proof -
  define d where "d = normalize_direction (sum_directions (moving p))"
  have d: "fst d \<in> unit_steps" "snd d \<in> unit_steps"
    using normalize_sum_directions [of "moving p"] by (simp_all add: d_def)
  obtain x y where xy: "player_x p = Fin x" "player_y p = Fin y"
      "0 \<le> x" "x < 800" "0 \<le> y" "y < 600"
    using assms(1) unfolding in_bounds_iff by blast
  obtain rx where rx: "displacement (fst d) dt = Fin rx" "\<bar>rx\<bar> \<le> largest 53 1023"
    using displacement_bounded [OF assms(2) d(1)] by blast
  obtain ry where ry: "displacement (snd d) dt = Fin ry" "\<bar>ry\<bar> \<le> largest 53 1023"
    using displacement_bounded [OF assms(2) d(2)] by blast
  have big: "(800::real) \<le> 2 ^ 968" "(600::real) \<le> 2 ^ 968"
    using power_increasing [of 10 968 "2::real"] by simp_all
  have "\<exists>z. properMod (js_add (Fin x) (Fin rx)) (Fin 800) = Fin z \<and> 0 \<le> z \<and> z < 800"
    using xy big rx(2) by (intro wrap_step) simp_all
  moreover
  have "\<exists>z. properMod (js_add (Fin y) (Fin ry)) (Fin 600) = Fin z \<and> 0 \<le> z \<and> z < 600"
    using xy big ry(2) by (intro wrap_step) simp_all
  ultimately show ?thesis
    unfolding in_bounds_iff updatePlayer_def Let_def d_def [symmetric] xy rx ry
      WORLD_WIDTH_eq WORLD_HEIGHT_eq
    by auto
qed

lemma rnd_tenth': "rnd (1 / 10) = Fin tenth"
  by (simp add: rnd_tenth tenth_def)

lemma rnd_50: "rnd (500 * tenth) = Fin 50"
  by (simp add: rnd_eval tenth_def)

lemma rnd_25: "rnd (250 * tenth) = Fin 25"
  by (simp add: rnd_eval tenth_def)

lemma rnd_790: "rnd 790 = Fin 790" by (simp add: rnd_eval)

lemma rnd_840: "rnd 840 = Fin 840" by (simp add: rnd_eval)

lemma rnd_1590: "rnd 1590 = Fin 1590" by (simp add: rnd_eval)

lemma rnd_300: "rnd 300 = Fin 300" by (simp add: rnd_eval)

lemma rnd_900: "rnd 900 = Fin 900" by (simp add: rnd_eval)

lemma rnd_40: "rnd 40 = Fin 40" by (simp add: rnd_eval)

lemma rnd_tenth_idem: "rnd tenth = Fin tenth"
  by (simp add: rnd_eval tenth_def)

lemma rnd_tenth_800: "rnd (tenth + 800) = Fin (7037754027068621 / 8796093022208)"
  by (simp add: rnd_eval tenth_def)

lemma rnd_tenth_600: "rnd (tenth + 600) = Fin (5278535422627021 / 8796093022208)"
  by (simp add: rnd_eval tenth_def)

lemma rnd_huge: "rnd huge = Fin huge"
  by (simp add: rnd_eval huge_def)

lemma rnd_overflow: "rnd (500 * huge) = PInf"
  by (simp add: rnd_eval huge_def)

text \<open>
  C5: with \<open>moving.up\<close> and \<open>moving.right\<close> set and the other flags clear, speed 500
  and \<open>deltaTime = 0.1\<close>, the summed vector is \<open>(1, -1)\<close>, its squared length is 2,
  the division by the squared length gives \<open>(0.5, -0.5)\<close>, and the position is
  displaced by \<open>(+25, -25)\<close> before it is wrapped.
\<close>

theorem updatePlayer_diagonal:
  "sum_directions diagonal = (Fin 1, Fin (- 1))
   \<and> squared_length (Fin 1, Fin (- 1)) = Fin 2
   \<and> normalize_direction (Fin 1, Fin (- 1)) = (Fin (1 / 2), Fin (- (1 / 2)))
   \<and> PLAYER_SPEED = Fin 500
   \<and> displacement (Fin (1 / 2)) (rnd (1 / 10)) = Fin 25
   \<and> displacement (Fin (- (1 / 2))) (rnd (1 / 10)) = Fin (- 25)
   \<and> updatePlayer (player\<lparr>moving := diagonal\<rparr>) (rnd (1 / 10)) =
       player\<lparr>moving := diagonal,
         player_x := properMod (js_add (player_x player) (Fin 25)) WORLD_WIDTH,
         player_y := properMod (js_add (player_y player) (Fin (- 25))) WORLD_HEIGHT\<rparr>"
proof -
  have s: "sum_directions diagonal = (Fin 1, Fin (- 1))"
    by (simp add: sum_directions_eq diagonal_def rnd_neg)
  have l: "squared_length (Fin 1, Fin (- 1)) = Fin 2"
    by (simp add: squared_length_def)
  have n: "normalize_direction (Fin 1, Fin (- 1)) = (Fin (1 / 2), Fin (- (1 / 2)))"
    by (simp add: normalize_direction_def l js_strict_neq_def rnd_neg)
  have dx: "displacement (Fin (1 / 2)) (rnd (1 / 10)) = Fin 25"
    by (simp add: displacement_def PLAYER_SPEED_def rnd_tenth' rnd_25)
  have "rnd (- (250 * tenth)) = Fin (- 25)" by (simp only: rnd_neg rnd_25 js_neg.simps)
  then have dy: "displacement (Fin (- (1 / 2))) (rnd (1 / 10)) = Fin (- 25)"
    by (simp add: displacement_def PLAYER_SPEED_def rnd_tenth' rnd_neg)
  have "updatePlayer (player\<lparr>moving := diagonal\<rparr>) (rnd (1 / 10)) =
       player\<lparr>moving := diagonal,
         player_x := properMod (js_add (player_x player) (Fin 25)) WORLD_WIDTH,
         player_y := properMod (js_add (player_y player) (Fin (- 25))) WORLD_HEIGHT\<rparr>"
    by (simp add: updatePlayer_def s n dx dy)
  with s l n dx dy show ?thesis by (simp add: PLAYER_SPEED_def)
qed

lemma js_mul_zero_finite: "is_finite dt \<Longrightarrow> js_mul (Fin 0) dt = Fin 0"
  by (cases dt) simp_all

lemma normalize_still: "normalize_direction (sum_directions still) = (Fin 0, Fin 0)"
  by (simp add: sum_directions_eq still_def normalize_direction_def squared_length_def
      js_strict_neq_def Let_def)

lemma normalize_only:
  "normalize_direction (sum_directions (only dir)) =
     (case dir of Left \<Rightarrow> (Fin (- 1), Fin 0) | Right \<Rightarrow> (Fin 1, Fin 0)
      | Up \<Rightarrow> (Fin 0, Fin (- 1)) | Down \<Rightarrow> (Fin 0, Fin 1))"
  by (cases dir)
     (simp_all add: sum_directions_eq only_def normalize_direction_def squared_length_def
        js_strict_neq_def rnd_neg Let_def)

lemma js_mul_neg: "js_mul (Fin (- c)) dt = js_neg (js_mul (Fin c) dt)"
  by (cases dt) (auto simp: rnd_neg signed_inf_def)

lemma displacement_unit:
  "displacement (Fin 1) dt = js_mul PLAYER_SPEED dt"
  "displacement (Fin (- 1)) dt = js_neg (js_mul PLAYER_SPEED dt)"
  using js_mul_neg [of 500 dt] by (simp_all add: displacement_def PLAYER_SPEED_def rnd_neg)

lemma fmod_eval: "fmod 840 800 = 40" "fmod 900 600 = 300" "fmod 300 600 = 300"
  "fmod 790 800 = 790" "fmod 1590 800 = 790"
  by (simp_all add: fmod_def trunc_def)

lemma in_bounds_player_at:
  "in_bounds (player_at x y m) \<longleftrightarrow> 0 \<le> x \<and> x < 800 \<and> 0 \<le> y \<and> y < 600"
  by (simp add: in_bounds_iff player_at_def)

text \<open>
  C1, amended: for a player inside the world bounds, after any sequence of
  \<open>updatePlayer\<close> calls whose \<open>deltaTime\<close> keeps \<open>PLAYER_SPEED * deltaTime\<close> finite
  (no overflow to an infinity), \<open>x\<close> is in \<open>[0, WORLD_WIDTH)\<close> and \<open>y\<close> is in
  \<open>[0, WORLD_HEIGHT)\<close>.
\<close>

theorem updatePlayer_wrap_invariant:
  assumes "in_bounds player"
    and "\<forall>deltaTime \<in> set ticks. is_finite (js_mul PLAYER_SPEED deltaTime)"
  shows "in_bounds (foldl updatePlayer player ticks)"
  using assms
proof (induction ticks arbitrary: player)
  case Nil
  then show ?case by simp
next
  case (Cons deltaTime ticks)
  have "in_bounds (updatePlayer player deltaTime)"
    using Cons.prems by (intro updatePlayer_in_bounds) simp_all
  then show ?case using Cons.IH Cons.prems(2) by simp
qed

text \<open>
  The invariant at the player at \<open>(790, 300)\<close> moving right, over two ticks of \<open>0.1\<close>.
\<close>

theorem updatePlayer_wrap_invariant_witness:
  "in_bounds (player_at 790 300 (only Right))
   \<and> is_finite (js_mul PLAYER_SPEED (rnd (1 / 10)))
   \<and> in_bounds (foldl updatePlayer (player_at 790 300 (only Right)) [rnd (1 / 10), rnd (1 / 10)])"
proof -
  have a: "in_bounds (player_at 790 300 (only Right))" by (simp add: in_bounds_player_at)
  have b: "is_finite (js_mul PLAYER_SPEED (rnd (1 / 10)))"
    by (simp add: PLAYER_SPEED_def rnd_tenth' rnd_50)
  then have "\<forall>deltaTime \<in> set [rnd (1 / 10), rnd (1 / 10)]. is_finite (js_mul PLAYER_SPEED deltaTime)"
    by simp
  from updatePlayer_wrap_invariant [OF a this] a b show ?thesis by simp
qed

text \<open>
  C1 as stated fails: \<open>2 ^ 1023\<close> is a finite, non-negative double, and
  \<open>500 * 2 ^ 1023\<close> overflows to \<open>Infinity\<close>; \<open>Infinity % 800\<close> is \<open>NaN\<close>, which the
  player's \<open>x\<close> becomes.
\<close>

theorem updatePlayer_overflow_counterexample:
  "in_bounds (player_at 0 0 (only Right))
   \<and> huge = 2 ^ 1023 \<and> is_double huge \<and> js_le (Fin 0) (Fin huge)
   \<and> player_x (updatePlayer (player_at 0 0 (only Right)) (Fin huge)) = NaN
   \<and> \<not> in_bounds (updatePlayer (player_at 0 0 (only Right)) (Fin huge))"
proof -
  have a: "in_bounds (player_at 0 0 (only Right))" by (simp add: in_bounds_player_at)
  have b: "is_double huge" by (simp add: is_double_def rnd_huge)
  have c: "js_le (Fin 0) (Fin huge)" by (simp add: js_le_def huge_def)
  have d: "displacement (Fin 1) (Fin huge) = PInf"
    by (simp add: displacement_def PLAYER_SPEED_def rnd_overflow)
  have e: "player_x (updatePlayer (player_at 0 0 (only Right)) (Fin huge)) = NaN"
    by (simp add: updatePlayer_def player_at_def normalize_only d properMod_def WORLD_WIDTH_eq)
  then have "\<not> in_bounds (updatePlayer (player_at 0 0 (only Right)) (Fin huge))"
    by (simp add: in_bounds_def js_le_def)
  with a b c e show ?thesis by (simp add: huge_def)
qed

section \<open>Ticks that leave a coordinate alone\<close>

lemma js_add_zero: "representable c \<Longrightarrow> js_add c (Fin 0) = c"
  by (cases c) (simp_all add: is_double_def)

lemma displacement_zero: "is_finite dt \<Longrightarrow> displacement (Fin 0) dt = Fin 0"
  by (simp add: displacement_def PLAYER_SPEED_def js_mul_zero_finite)

text \<open>
  The wrap of a coordinate inside the world is the coordinate itself exactly when the sum
  with the bound is not rounded.
\<close>

lemma properMod_fixed_iff:
  assumes v: "0 \<le> v" "v < b" and b: "is_double b" "is_double (2 * b)" "b \<le> 2 ^ 968"
  shows "properMod (Fin v) (Fin b) = Fin v \<longleftrightarrow> is_double (v + b)"
proof
  assume "is_double (v + b)"
  then show "properMod (Fin v) (Fin b) = Fin v"
    using v by (simp add: properMod_def fmod_small fmod_shift is_double_def)
next
  assume fixed: "properMod (Fin v) (Fin b) = Fin v"
  have b0: "0 < b" using v by simp
  have "(2::real) ^ 968 + 2 ^ 968 \<le> 2 ^ 969" by simp
  moreover have "0 \<le> largest 53 1023"
    using emax_le_largest [of 53 1023] zero_less_power_int [of "2::real" 1023] by linarith
  ultimately have "\<bar>v + b\<bar> < threshold 53 1023" using v b(3) gap_64 by linarith
  then have "is_finite (rnd (v + b))" by (simp add: rnd_finite_iff)
  then obtain s where s: "rnd (v + b) = Fin s" by (cases "rnd (v + b)") auto
  have lo: "b \<le> s"
    using rnd_mono_nonneg [of b "v + b" b s] b(1) s v b0 by (simp add: is_double_def)
  have hi: "s \<le> 2 * b"
    using rnd_mono_nonneg [of "v + b" "2 * b" s "2 * b"] b(2) s v b0 by (simp add: is_double_def)
  have f: "fmod s b = v"
    using fixed v b0 by (simp add: properMod_def fmod_small s)
  show "is_double (v + b)"
  proof (cases "s = 2 * b")
    case True
    have "fmod (2 * b) b = 0" using b0 by (simp add: fmod_def trunc_def)
    then have "v = 0" using f True by simp
    then have "s = b" using s b(1) by (simp add: is_double_def)
    then show ?thesis using True b0 by simp
  next
    case False
    then have "0 \<le> s - b" "s - b < b" using lo hi by simp_all
    then have "fmod (s - b + b) b = s - b" by (rule fmod_shift)
    then have "s = v + b" using f by simp
    then show ?thesis using s by (simp add: is_double_def)
  qed
qed

lemma is_double_bounds:
  "is_double 800" "is_double (2 * 800)" "is_double 600" "is_double (2 * 600)"
  using is_double_of_int [of 800] is_double_of_int [of 1600] is_double_of_int [of 600]
    is_double_of_int [of 1200]
  by simp_all

lemma wrap_fixed_iff:
  "js_le (Fin 0) c \<Longrightarrow> js_lt c WORLD_WIDTH \<Longrightarrow>
     properMod c WORLD_WIDTH = c \<longleftrightarrow> wraps_exactly c WORLD_WIDTH"
  "js_le (Fin 0) c \<Longrightarrow> js_lt c WORLD_HEIGHT \<Longrightarrow>
     properMod c WORLD_HEIGHT = c \<longleftrightarrow> wraps_exactly c WORLD_HEIGHT"
proof -
  have big: "(800::real) \<le> 2 ^ 968" "(600::real) \<le> 2 ^ 968"
    using power_increasing [of 10 968 "2::real"] by simp_all
  show "properMod c WORLD_WIDTH = c \<longleftrightarrow> wraps_exactly c WORLD_WIDTH"
    if h: "js_le (Fin 0) c" "js_lt c WORLD_WIDTH"
  proof -
    obtain v where c: "c = Fin v" "0 \<le> v" "v < 800"
      using h by (cases c) (auto simp: js_le_def WORLD_WIDTH_eq)
    show ?thesis
      unfolding c(1) WORLD_WIDTH_eq wraps_exactly.simps
      using c(2,3) is_double_bounds(1,2) big(1) by (rule properMod_fixed_iff)
  qed
  show "properMod c WORLD_HEIGHT = c \<longleftrightarrow> wraps_exactly c WORLD_HEIGHT"
    if h: "js_le (Fin 0) c" "js_lt c WORLD_HEIGHT"
  proof -
    obtain v where c: "c = Fin v" "0 \<le> v" "v < 600"
      using h by (cases c) (auto simp: js_le_def WORLD_HEIGHT_eq)
    show ?thesis
      unfolding c(1) WORLD_HEIGHT_eq wraps_exactly.simps
      using c(2,3) is_double_bounds(3,4) big(2) by (rule properMod_fixed_iff)
  qed
qed

text \<open>Every integer coordinate inside the world wraps exactly.\<close>

lemma wraps_exactly_int:
  assumes "0 \<le> n" "n < 800"
  shows "representable (Fin (of_int n))"
    and "wraps_exactly (Fin (of_int n)) WORLD_WIDTH"
    and "wraps_exactly (Fin (of_int n)) WORLD_HEIGHT"
proof -
  show "representable (Fin (of_int n))" using assms by (simp add: is_double_of_int)
  have "is_double (of_int (n + 800))" using assms by (intro is_double_of_int) simp
  then show "wraps_exactly (Fin (of_int n)) WORLD_WIDTH" by (simp add: WORLD_WIDTH_eq)
  have "is_double (of_int (n + 600))" using assms by (intro is_double_of_int) simp
  then show "wraps_exactly (Fin (of_int n)) WORLD_HEIGHT" by (simp add: WORLD_HEIGHT_eq)
qed

lemma scenario_A:
  "updatePlayer (player_at 790 300 (only Right)) (rnd (1 / 10)) = player_at 40 300 (only Right)"
proof -
  have d: "displacement (Fin 1) (Fin tenth) = Fin 50" "displacement (Fin 0) (Fin tenth) = Fin 0"
    by (simp_all add: displacement_def PLAYER_SPEED_def rnd_50)
  show ?thesis
    by (simp add: updatePlayer_def player_at_def normalize_only rnd_tenth' d properMod_def
        WORLD_WIDTH_eq WORLD_HEIGHT_eq rnd_840 rnd_300 rnd_900 fmod_eval)
qed

text \<open>
  C7, amended: for a player inside the world bounds with all four moving flags false and a
  finite \<open>deltaTime\<close>, \<open>updatePlayer\<close> replaces \<open>x\<close> by \<open>properMod(x, WORLD_WIDTH)\<close> and
  \<open>y\<close> by \<open>properMod(y, WORLD_HEIGHT)\<close>; \<open>x\<close> is unchanged exactly when
  \<open>x + WORLD_WIDTH\<close> is representable as a double, and \<open>y\<close> exactly when
  \<open>y + WORLD_HEIGHT\<close> is.
\<close>

theorem updatePlayer_idle:
  assumes "in_bounds player" and "\<forall>dir. \<not> moving player dir" and "is_finite deltaTime"
    and "representable (player_x player)" and "representable (player_y player)"
  shows "updatePlayer player deltaTime =
           player\<lparr>player_x := properMod (player_x player) WORLD_WIDTH,
                  player_y := properMod (player_y player) WORLD_HEIGHT\<rparr>
   \<and> (player_x (updatePlayer player deltaTime) = player_x player
        \<longleftrightarrow> wraps_exactly (player_x player) WORLD_WIDTH)
   \<and> (player_y (updatePlayer player deltaTime) = player_y player
        \<longleftrightarrow> wraps_exactly (player_y player) WORLD_HEIGHT)"
proof -
  have m: "moving player = still" using assms(2) by (auto simp: still_def)
  have b: "js_le (Fin 0) (player_x player)" "js_lt (player_x player) WORLD_WIDTH"
    "js_le (Fin 0) (player_y player)" "js_lt (player_y player) WORLD_HEIGHT"
    using assms(1) by (simp_all add: in_bounds_def)
  have u: "updatePlayer player deltaTime =
           player\<lparr>player_x := properMod (player_x player) WORLD_WIDTH,
                  player_y := properMod (player_y player) WORLD_HEIGHT\<rparr>"
    using assms(3,4,5)
    by (simp add: updatePlayer_def m normalize_still displacement_zero js_add_zero)
  show ?thesis
    unfolding u using wrap_fixed_iff(1) [OF b(1,2)] wrap_fixed_iff(2) [OF b(3,4)] by simp
qed

text \<open>
  The idle player at \<open>(790, 300)\<close> stays where it is: \<open>790 + 800\<close> and \<open>300 + 600\<close> are
  integers.
\<close>

theorem updatePlayer_idle_witness:
  "in_bounds (player_at 790 300 still) \<and> (\<forall>dir. \<not> moving (player_at 790 300 still) dir)
   \<and> is_finite (rnd (1 / 10))
   \<and> representable (player_x (player_at 790 300 still))
   \<and> representable (player_y (player_at 790 300 still))
   \<and> wraps_exactly (player_x (player_at 790 300 still)) WORLD_WIDTH
   \<and> wraps_exactly (player_y (player_at 790 300 still)) WORLD_HEIGHT
   \<and> player_x (updatePlayer (player_at 790 300 still) (rnd (1 / 10))) = Fin 790
   \<and> player_y (updatePlayer (player_at 790 300 still) (rnd (1 / 10))) = Fin 300"
proof -
  have a: "in_bounds (player_at 790 300 still)" by (simp add: in_bounds_player_at)
  have b: "\<forall>dir. \<not> moving (player_at 790 300 still) dir" by (simp add: player_at_def still_def)
  have c: "is_finite (rnd (1 / 10))" by (simp add: rnd_tenth')
  have d: "representable (player_x (player_at 790 300 still))"
    "wraps_exactly (player_x (player_at 790 300 still)) WORLD_WIDTH"
    using wraps_exactly_int(1,2) [of 790] by (simp_all add: player_at_def)
  have e: "representable (player_y (player_at 790 300 still))"
    "wraps_exactly (player_y (player_at 790 300 still)) WORLD_HEIGHT"
    using wraps_exactly_int(1,3) [of 300] by (simp_all add: player_at_def)
  note u = updatePlayer_idle [OF a b c d(1) e(1)]
  have x: "player_x (updatePlayer (player_at 790 300 still) (rnd (1 / 10))) = Fin 790"
    using u [THEN conjunct2, THEN conjunct1] d(2) by (simp add: player_at_def)
  have y: "player_y (updatePlayer (player_at 790 300 still) (rnd (1 / 10))) = Fin 300"
    using u [THEN conjunct2, THEN conjunct2] e(2) by (simp add: player_at_def)
  from a b c d e x y show ?thesis by blast
qed

text \<open>
  C7 as stated fails: the idle player at \<open>x = 0.1\<close> is moved to
  \<open>(0.1 % 800 + 800) % 800 = 0.10000000000002274\<close>, since \<open>0.1 + 800\<close> is rounded.
\<close>

theorem updatePlayer_idle_counterexample:
  "in_bounds (player_at tenth 300 still) \<and> (\<forall>dir. \<not> moving (player_at tenth 300 still) dir)
   \<and> is_double tenth \<and> rnd (1 / 10) = Fin tenth
   \<and> player_x (updatePlayer (player_at tenth 300 still) (rnd (1 / 10)))
       = Fin (879609302221 / 8796093022208)
   \<and> player_x (updatePlayer (player_at tenth 300 still) (rnd (1 / 10)))
       \<noteq> player_x (player_at tenth 300 still)"
proof -
  have a: "in_bounds (player_at tenth 300 still)"
    by (simp add: in_bounds_player_at) (simp add: tenth_def)
  have b: "\<forall>dir. \<not> moving (player_at tenth 300 still) dir" by (simp add: player_at_def still_def)
  have c: "is_double tenth" by (simp add: is_double_def rnd_tenth_idem)
  have f: "fmod tenth 800 = tenth" by (rule fmod_small) (simp_all add: tenth_def)
  have g: "fmod (7037754027068621 / 8796093022208) 800 = 879609302221 / 8796093022208"
    by (simp add: fmod_def trunc_def)
  have d: "player_x (updatePlayer (player_at tenth 300 still) (rnd (1 / 10)))
       = Fin (879609302221 / 8796093022208)"
    by (simp add: updatePlayer_def player_at_def normalize_still displacement_def PLAYER_SPEED_def
        rnd_tenth' rnd_tenth_idem properMod_def WORLD_WIDTH_eq f rnd_tenth_800 g)
  have e: "879609302221 / 8796093022208 \<noteq> tenth" by (simp add: tenth_def)
  from a b c d e show ?thesis by (simp add: rnd_tenth' player_at_def)
qed

text \<open>
  C6, amended: for a player inside the world bounds with exactly one moving flag set and
  a finite \<open>deltaTime\<close>, the coordinate of that direction's axis becomes the wrap of the
  coordinate plus (right, down) or minus (left, up) \<open>PLAYER_SPEED * deltaTime\<close>, and the
  other coordinate \<open>c\<close> becomes \<open>properMod(c, bound)\<close>, which is \<open>c\<close> exactly when
  \<open>c + bound\<close> is representable as a double. At width 800 and speed 500, the player at
  \<open>(790, 300)\<close> moving right only is at \<open>(40, 300)\<close> after \<open>deltaTime = 0.1\<close>.
\<close>

theorem updatePlayer_single_direction:
  assumes "in_bounds player" and "\<forall>d. moving player d \<longleftrightarrow> d = dir" and "is_finite deltaTime"
    and "representable (player_x player)" and "representable (player_y player)"
  shows "updatePlayer player deltaTime =
     (case dir of
        Left \<Rightarrow> player\<lparr>
          player_x := properMod (js_add (player_x player)
                                   (js_neg (js_mul PLAYER_SPEED deltaTime))) WORLD_WIDTH,
          player_y := properMod (player_y player) WORLD_HEIGHT\<rparr>
      | Right \<Rightarrow> player\<lparr>
          player_x := properMod (js_add (player_x player)
                                   (js_mul PLAYER_SPEED deltaTime)) WORLD_WIDTH,
          player_y := properMod (player_y player) WORLD_HEIGHT\<rparr>
      | Up \<Rightarrow> player\<lparr>
          player_x := properMod (player_x player) WORLD_WIDTH,
          player_y := properMod (js_add (player_y player)
                                   (js_neg (js_mul PLAYER_SPEED deltaTime))) WORLD_HEIGHT\<rparr>
      | Down \<Rightarrow> player\<lparr>
          player_x := properMod (player_x player) WORLD_WIDTH,
          player_y := properMod (js_add (player_y player)
                                   (js_mul PLAYER_SPEED deltaTime)) WORLD_HEIGHT\<rparr>)
   \<and> (properMod (player_x player) WORLD_WIDTH = player_x player
        \<longleftrightarrow> wraps_exactly (player_x player) WORLD_WIDTH)
   \<and> (properMod (player_y player) WORLD_HEIGHT = player_y player
        \<longleftrightarrow> wraps_exactly (player_y player) WORLD_HEIGHT)
   \<and> updatePlayer (player_at 790 300 (only Right)) (rnd (1 / 10)) = player_at 40 300 (only Right)"
proof -
  have m: "moving player = only dir" using assms(2) by (auto simp: only_def)
  have b: "js_le (Fin 0) (player_x player)" "js_lt (player_x player) WORLD_WIDTH"
    "js_le (Fin 0) (player_y player)" "js_lt (player_y player) WORLD_HEIGHT"
    using assms(1) by (simp_all add: in_bounds_def)
  have z: "js_add (player_x player) (displacement (Fin 0) deltaTime) = player_x player"
    "js_add (player_y player) (displacement (Fin 0) deltaTime) = player_y player"
    using assms(3,4,5) by (simp_all add: displacement_zero js_add_zero)
  have "updatePlayer player deltaTime =
     (case dir of
        Left \<Rightarrow> player\<lparr>
          player_x := properMod (js_add (player_x player)
                                   (js_neg (js_mul PLAYER_SPEED deltaTime))) WORLD_WIDTH,
          player_y := properMod (player_y player) WORLD_HEIGHT\<rparr>
      | Right \<Rightarrow> player\<lparr>
          player_x := properMod (js_add (player_x player)
                                   (js_mul PLAYER_SPEED deltaTime)) WORLD_WIDTH,
          player_y := properMod (player_y player) WORLD_HEIGHT\<rparr>
      | Up \<Rightarrow> player\<lparr>
          player_x := properMod (player_x player) WORLD_WIDTH,
          player_y := properMod (js_add (player_y player)
                                   (js_neg (js_mul PLAYER_SPEED deltaTime))) WORLD_HEIGHT\<rparr>
      | Down \<Rightarrow> player\<lparr>
          player_x := properMod (player_x player) WORLD_WIDTH,
          player_y := properMod (js_add (player_y player)
                                   (js_mul PLAYER_SPEED deltaTime)) WORLD_HEIGHT\<rparr>)"
    by (cases dir) (simp_all add: updatePlayer_def m normalize_only displacement_unit z)
  then show ?thesis
    using wrap_fixed_iff(1) [OF b(1,2)] wrap_fixed_iff(2) [OF b(3,4)] scenario_A by simp
qed

text \<open>
  The player at \<open>(790, 300)\<close> moving right only: the new \<open>x\<close> is the wrap of
  \<open>790 + 500 * 0.1\<close>, which is 40, and \<open>y\<close> stays 300.
\<close>

theorem updatePlayer_single_direction_witness:
  "in_bounds (player_at 790 300 (only Right))
   \<and> (\<forall>d. moving (player_at 790 300 (only Right)) d \<longleftrightarrow> d = Right)
   \<and> is_finite (rnd (1 / 10))
   \<and> representable (player_x (player_at 790 300 (only Right)))
   \<and> representable (player_y (player_at 790 300 (only Right)))
   \<and> updatePlayer (player_at 790 300 (only Right)) (rnd (1 / 10)) =
       (player_at 790 300 (only Right))\<lparr>
          player_x := properMod (js_add (Fin 790) (js_mul PLAYER_SPEED (rnd (1 / 10)))) WORLD_WIDTH,
          player_y := properMod (Fin 300) WORLD_HEIGHT\<rparr>
   \<and> properMod (js_add (Fin 790) (js_mul PLAYER_SPEED (rnd (1 / 10)))) WORLD_WIDTH = Fin 40
   \<and> properMod (Fin 300) WORLD_HEIGHT = Fin 300"
proof -
  have a: "in_bounds (player_at 790 300 (only Right))" by (simp add: in_bounds_player_at)
  have b: "\<forall>d. moving (player_at 790 300 (only Right)) d \<longleftrightarrow> d = Right"
    by (simp add: player_at_def only_def)
  have c: "is_finite (rnd (1 / 10))" by (simp add: rnd_tenth')
  have d: "representable (player_x (player_at 790 300 (only Right)))"
    using wraps_exactly_int(1) [of 790] by (simp add: player_at_def)
  have e: "representable (player_y (player_at 790 300 (only Right)))"
    using wraps_exactly_int(1) [of 300] by (simp add: player_at_def)
  have f: "properMod (js_add (Fin 790) (js_mul PLAYER_SPEED (rnd (1 / 10)))) WORLD_WIDTH = Fin 40"
    by (simp add: PLAYER_SPEED_def rnd_tenth' rnd_50 rnd_840 properMod_def WORLD_WIDTH_eq fmod_eval)
  have g: "properMod (Fin 300) WORLD_HEIGHT = Fin 300"
    by (simp add: properMod_def WORLD_HEIGHT_eq rnd_900 fmod_eval)
  have "updatePlayer (player_at 790 300 (only Right)) (rnd (1 / 10)) =
       (player_at 790 300 (only Right))\<lparr>
          player_x := properMod (js_add (Fin 790) (js_mul PLAYER_SPEED (rnd (1 / 10)))) WORLD_WIDTH,
          player_y := properMod (Fin 300) WORLD_HEIGHT\<rparr>"
    using updatePlayer_single_direction [OF a b c d e] by (simp add: player_at_def)
  with a b c d e f g show ?thesis by simp
qed

text \<open>
  C6 as stated fails: the player at \<open>(790, 0.1)\<close> moving right only has its \<open>y\<close> changed
  to \<open>0.10000000000002274\<close>, since \<open>0.1 + 600\<close> is rounded.
\<close>

theorem updatePlayer_single_direction_counterexample:
  "in_bounds (player_at 790 tenth (only Right))
   \<and> (\<forall>d. moving (player_at 790 tenth (only Right)) d \<longleftrightarrow> d = Right)
   \<and> is_double 790 \<and> is_double tenth \<and> rnd (1 / 10) = Fin tenth
   \<and> player_y (updatePlayer (player_at 790 tenth (only Right)) (rnd (1 / 10)))
       = Fin (879609302221 / 8796093022208)
   \<and> player_y (updatePlayer (player_at 790 tenth (only Right)) (rnd (1 / 10)))
       \<noteq> player_y (player_at 790 tenth (only Right))"
proof -
  have a: "in_bounds (player_at 790 tenth (only Right))"
    by (simp add: in_bounds_player_at) (simp add: tenth_def)
  have b: "\<forall>d. moving (player_at 790 tenth (only Right)) d \<longleftrightarrow> d = Right"
    by (simp add: player_at_def only_def)
  have c: "is_double 790" "is_double tenth" by (simp_all add: is_double_def rnd_790 rnd_tenth_idem)
  have f: "fmod tenth 600 = tenth" by (rule fmod_small) (simp_all add: tenth_def)
  have g: "fmod (5278535422627021 / 8796093022208) 600 = 879609302221 / 8796093022208"
    by (simp add: fmod_def trunc_def)
  have d: "player_y (updatePlayer (player_at 790 tenth (only Right)) (rnd (1 / 10)))
       = Fin (879609302221 / 8796093022208)"
    by (simp add: updatePlayer_def player_at_def normalize_only displacement_def PLAYER_SPEED_def
        rnd_tenth' rnd_tenth_idem properMod_def WORLD_HEIGHT_eq f rnd_tenth_600 g)
  have e: "879609302221 / 8796093022208 \<noteq> tenth" by (simp add: tenth_def)
  from a b c d e show ?thesis by (simp add: rnd_tenth' player_at_def)
qed

section \<open>Frame of the movement engine\<close>

text \<open>
  C9: \<open>updatePlayer\<close> assigns \<open>player.x\<close> and \<open>player.y\<close> only; the id, the hue and
  the four moving flags are the same after the call, for every player and deltaTime.
\<close>

theorem updatePlayer_frame:
  "player_id (updatePlayer player deltaTime) = player_id player
   \<and> hue (updatePlayer player deltaTime) = hue player
   \<and> moving (updatePlayer player deltaTime) = moving player"
  by (simp add: updatePlayer_def Let_def)

section \<open>The binary schema: lemmas\<close>

lemmas schema_eval = HelloStruct_def allocUint8Field_def allocUint32Field_def
  allocFloat32Field_def UINT8_SIZE_def UINT32_SIZE_def FLOAT32_SIZE_def Let_def

lemma le_value_le_bytes: "le_value (le_bytes k n) = n mod 256 ^ k"
proof (induction k arbitrary: n)
  case 0
  show ?case by simp
next
  case (Suc k)
  have "unat (of_nat (n mod 256) :: 8 word) = n mod 256" by (simp add: unat_of_nat)
  then show ?case using Suc [of "n div 256"] by (simp add: mod_mult2_eq)
qed

lemma length_le_bytes [simp]: "length (le_bytes k n) = k"
  by (induction k arbitrary: n) simp_all

lemma write_bytes_length: "write_bytes view i bs = Inr view' \<Longrightarrow> length view' = length view"
  by (auto simp: write_bytes_def split: if_splits)

lemma write_bytes_ok:
  "i + length bs \<le> length view \<Longrightarrow>
   write_bytes view i bs = Inr (take i view @ bs @ drop (i + length bs) view)"
  by (simp add: write_bytes_def)

lemma read_written:
  assumes "write_bytes view i bs = Inr view'"
  shows "read_bytes view' i (length bs) = Inr bs"
  using assms by (auto simp: write_bytes_def read_bytes_def split: if_splits)

lemma read_elsewhere:
  assumes "write_bytes view i bs = Inr view'" and "j + k \<le> i \<or> i + length bs \<le> j"
  shows "read_bytes view' j k = read_bytes view j k"
proof -
  have len: "i + length bs \<le> length view"
    and v': "view' = take i view @ bs @ drop (i + length bs) view"
    using assms(1) by (auto simp: write_bytes_def split: if_splits)
  have lv: "length view' = length view" using len by (simp add: v')
  show ?thesis
  proof (cases "j + k \<le> length view")
    case False
    then show ?thesis by (simp add: read_bytes_def lv)
  next
    case True
    have "take k (drop j view') = take k (drop j view)"
    proof (rule nth_equalityI)
      show "length (take k (drop j view')) = length (take k (drop j view))"
        by (simp add: lv)
    next
      fix n assume "n < length (take k (drop j view'))"
      then have n: "n < k" "j + n < length view" by (auto simp: lv)
      have "view' ! (j + n) = view ! (j + n)"
      proof (cases "j + k \<le> i")
        case True
        then show ?thesis using n len by (simp add: v' nth_append)
      next
        case False
        then have ge: "i + length bs \<le> j" using assms(2) by simp
        then have a: "\<not> j + n < i" "\<not> j + n - i < length bs" by simp_all
        have "view' ! (j + n) = drop (i + length bs) view ! (j + n - i - length bs)"
          using a len by (simp add: v' nth_append)
        also have "\<dots> = view ! (i + length bs + (j + n - i - length bs))"
          using len by (intro nth_drop) simp
        also have "i + length bs + (j + n - i - length bs) = j + n" using ge by simp
        finally show ?thesis .
      qed
      then show "take k (drop j view') ! n = take k (drop j view) ! n"
        using n by (simp add: lv)
    qed
    then show ?thesis using True by (simp add: read_bytes_def lv)
  qed
qed

lemma trunc_of_int [simp]: "trunc (of_int n) = n"
  by (simp add: trunc_def)

lemma to_uint_int: "to_uint bits (Fin (of_int n)) = nat (n mod 2 ^ bits)"
  by simp

lemma alloc_fields:
  "allocUint8Field a =
     (\<lparr>field_offset = iota a, field_size = 1,
       field_read = (\<lambda>view baseOffset. getUint8 view (baseOffset + iota a)),
       field_write = (\<lambda>view baseOffset value. setUint8 view (baseOffset + iota a) value)\<rparr>,
      a\<lparr>iota := iota a + 1\<rparr>)"
  "allocUint32Field a =
     (\<lparr>field_offset = iota a, field_size = 4,
       field_read = (\<lambda>view baseOffset. getUint32 view (baseOffset + iota a) True),
       field_write = (\<lambda>view baseOffset value. setUint32 view (baseOffset + iota a) value True)\<rparr>,
      a\<lparr>iota := iota a + 4\<rparr>)"
  "allocFloat32Field a =
     (\<lparr>field_offset = iota a, field_size = 4,
       field_read = (\<lambda>view baseOffset. getFloat32 view (baseOffset + iota a) True),
       field_write = (\<lambda>view baseOffset value. setFloat32 view (baseOffset + iota a) value True)\<rparr>,
      a\<lparr>iota := iota a + 4\<rparr>)"
  by (simp_all add: schema_eval)

lemma HelloStruct_eq:
  "HelloStruct =
     \<lparr>hello_kind = fst (allocUint8Field \<lparr>iota = 0\<rparr>),
      hello_id = fst (allocUint32Field \<lparr>iota = 1\<rparr>),
      hello_x = fst (allocFloat32Field \<lparr>iota = 5\<rparr>),
      hello_y = fst (allocFloat32Field \<lparr>iota = 9\<rparr>),
      hello_hue = fst (allocUint8Field \<lparr>iota = 13\<rparr>),
      hello_size = 14\<rparr>"
  by (simp add: HelloStruct_def alloc_fields)

text \<open>
  C3: each \<open>alloc\<close> function gives its field the allocator's counter as offset and
  advances the counter by the field's size, so \<open>HelloStruct\<close> has the little-endian
  layout \<open>kind\<close>: u8 at 0, \<open>id\<close>: u32 at 1, \<open>x\<close>: f32 at 5, \<open>y\<close>: f32 at 9,
  \<open>hue\<close>: u8 at 13, and its size is 14 bytes.
\<close>

theorem HelloStruct_layout:
  "field_offset (fst (allocUint8Field a)) = iota a
   \<and> iota (snd (allocUint8Field a)) = iota a + 1
   \<and> field_offset (fst (allocUint32Field a)) = iota a
   \<and> iota (snd (allocUint32Field a)) = iota a + 4
   \<and> field_offset (fst (allocFloat32Field a)) = iota a
   \<and> iota (snd (allocFloat32Field a)) = iota a + 4
   \<and> field_offset (hello_kind HelloStruct) = 0 \<and> field_size (hello_kind HelloStruct) = 1
   \<and> field_read (hello_kind HelloStruct) view b = getUint8 view (b + 0)
   \<and> field_write (hello_kind HelloStruct) view b v = setUint8 view (b + 0) v
   \<and> field_offset (hello_id HelloStruct) = 1 \<and> field_size (hello_id HelloStruct) = 4
   \<and> field_read (hello_id HelloStruct) view b = getUint32 view (b + 1) True
   \<and> field_write (hello_id HelloStruct) view b v = setUint32 view (b + 1) v True
   \<and> field_offset (hello_x HelloStruct) = 5 \<and> field_size (hello_x HelloStruct) = 4
   \<and> field_read (hello_x HelloStruct) view b = getFloat32 view (b + 5) True
   \<and> field_write (hello_x HelloStruct) view b v = setFloat32 view (b + 5) v True
   \<and> field_offset (hello_y HelloStruct) = 9 \<and> field_size (hello_y HelloStruct) = 4
   \<and> field_read (hello_y HelloStruct) view b = getFloat32 view (b + 9) True
   \<and> field_write (hello_y HelloStruct) view b v = setFloat32 view (b + 9) v True
   \<and> field_offset (hello_hue HelloStruct) = 13 \<and> field_size (hello_hue HelloStruct) = 1
   \<and> field_read (hello_hue HelloStruct) view b = getUint8 view (b + 13)
   \<and> field_write (hello_hue HelloStruct) view b v = setUint8 view (b + 13) v
   \<and> hello_size HelloStruct = 14"
  by (simp add: HelloStruct_eq alloc_fields)

lemma le_value_to_uint: "4 \<le> k \<Longrightarrow> le_value (le_bytes k (to_uint 32 v)) = to_uint 32 v"
  "1 \<le> k \<Longrightarrow> le_value (le_bytes k (to_uint 8 v)) = to_uint 8 v"
proof -
  have a: "to_uint 32 v < 256 ^ 4" by (cases v) (simp_all add: nat_less_iff)
  have b: "to_uint 8 v < 256 ^ 1" by (cases v) (simp_all add: nat_less_iff)
  show "le_value (le_bytes k (to_uint 32 v)) = to_uint 32 v" if "4 \<le> k"
  proof -
    have "(256::nat) ^ 4 \<le> 256 ^ k" using that by (intro power_increasing) simp_all
    then show ?thesis using a by (simp only: le_value_le_bytes mod_less less_le_trans)
  qed
  show "le_value (le_bytes k (to_uint 8 v)) = to_uint 8 v" if "1 \<le> k"
  proof -
    have "(256::nat) ^ 1 \<le> 256 ^ k" using that by (intro power_increasing) simp_all
    then show ?thesis using b by (simp only: le_value_le_bytes mod_less less_le_trans)
  qed
qed

lemma uint8_round_trip:
  assumes "i + 1 \<le> length view"
  shows "\<exists>view'. setUint8 view i v = Inr view'
           \<and> getUint8 view' i = Inr (Fin (real (to_uint 8 v)))"
proof -
  define bs where "bs = le_bytes 1 (to_uint 8 v)"
  have l: "length bs = 1" by (simp add: bs_def)
  then obtain view' where w: "write_bytes view i bs = Inr view'"
    using assms by (simp add: write_bytes_def)
  have r: "read_bytes view' i 1 = Inr bs" using read_written [OF w] l by simp
  have "le_value bs = to_uint 8 v" unfolding bs_def by (rule le_value_to_uint) simp
  then show ?thesis using w r by (simp add: setUint8_def getUint8_def bs_def)
qed

lemma uint32_round_trip:
  assumes "i + 4 \<le> length view"
  shows "\<exists>view'. setUint32 view i v True = Inr view'
           \<and> getUint32 view' i True = Inr (Fin (real (to_uint 32 v)))"
proof -
  define bs where "bs = le_bytes 4 (to_uint 32 v)"
  have l: "length bs = 4" by (simp add: bs_def)
  then obtain view' where w: "write_bytes view i bs = Inr view'"
    using assms by (simp add: write_bytes_def)
  have r: "read_bytes view' i 4 = Inr bs" using read_written [OF w] l by simp
  have "le_value bs = to_uint 32 v" unfolding bs_def by (rule le_value_to_uint) simp
  then show ?thesis using w r by (simp add: setUint32_def getUint32_def bs_def ordered_def)
qed

lemma int_mod_id_iff:
  fixes n m :: int
  assumes "0 < m"
  shows "n mod m = n \<longleftrightarrow> 0 \<le> n \<and> n < m"
proof
  assume e: "n mod m = n"
  have "0 \<le> n mod m" "n mod m < m" using assms by simp_all
  then show "0 \<le> n \<and> n < m" unfolding e by simp
next
  assume "0 \<le> n \<and> n < m"
  then show "n mod m = n" by simp
qed

text \<open>A number is what \<open>ToUint\<close> makes of it exactly when it is an integer in range.\<close>

lemma to_uint_exact:
  "Fin (real (to_uint bits v)) = v \<longleftrightarrow> (\<exists>n. v = Fin (of_int n) \<and> 0 \<le> n \<and> n < 2 ^ bits)"
proof
  assume e: "Fin (real (to_uint bits v)) = v"
  have "to_uint bits v < 2 ^ bits" by (cases v) (simp_all add: nat_less_iff)
  then have "int (to_uint bits v) < 2 ^ bits" by (metis of_nat_less_iff of_nat_numeral of_nat_power)
  moreover have "v = Fin (of_int (int (to_uint bits v)))" using e by simp
  ultimately show "\<exists>n. v = Fin (of_int n) \<and> 0 \<le> n \<and> n < 2 ^ bits"
    by (intro exI [of _ "int (to_uint bits v)"]) simp
next
  assume "\<exists>n. v = Fin (of_int n) \<and> 0 \<le> n \<and> n < 2 ^ bits"
  then obtain n where n: "v = Fin (of_int n)" "0 \<le> n" "n < 2 ^ bits" by blast
  then have "n mod 2 ^ bits = n" by simp
  then show "Fin (real (to_uint bits v)) = v" using n by simp
qed

lemma uint8_out_of_range:
  "\<not> i + 1 \<le> length view \<Longrightarrow> setUint8 view i v = Inl RangeError"
  by (simp add: setUint8_def write_bytes_def)

lemma uint32_out_of_range:
  "\<not> i + 4 \<le> length view \<Longrightarrow> setUint32 view i v True = Inl RangeError"
  by (simp add: setUint32_def write_bytes_def ordered_def)

text \<open>
  C10: a value written through a uint8 field and read back is \<open>ToUint8\<close> of the value,
  which for an integer \<open>n\<close> is \<open>n mod 256\<close>; it is the value itself exactly when the
  value is an integer in \<open>[0, 255]\<close>. Likewise a uint32 field gives \<open>n mod 2 ^ 32\<close> and
  round-trips exactly the integers in \<open>[0, 2 ^ 32)\<close>. This holds whenever the view holds
  the byte of the uint8 field, or the four bytes of the uint32 field; otherwise the write
  throws a \<open>RangeError\<close>.
\<close>

theorem uint_field_round_trip:
  "(baseOffset + iota a + 1 \<le> length view \<longrightarrow>
      write_then_read (fst (allocUint8Field a)) view baseOffset v
        = Inr (Fin (real (to_uint 8 v)))
      \<and> (write_then_read (fst (allocUint8Field a)) view baseOffset v = Inr v
           \<longleftrightarrow> (\<exists>k. v = Fin (of_int k) \<and> 0 \<le> k \<and> k \<le> 255)))
   \<and> (\<not> baseOffset + iota a + 1 \<le> length view \<longrightarrow>
      write_then_read (fst (allocUint8Field a)) view baseOffset v = Inl RangeError)
   \<and> to_uint 8 (Fin (of_int n)) = nat (n mod 256)
   \<and> (baseOffset + iota a + 4 \<le> length view \<longrightarrow>
      write_then_read (fst (allocUint32Field a)) view baseOffset v
        = Inr (Fin (real (to_uint 32 v)))
      \<and> (write_then_read (fst (allocUint32Field a)) view baseOffset v = Inr v
           \<longleftrightarrow> (\<exists>k. v = Fin (of_int k) \<and> 0 \<le> k \<and> k < 2 ^ 32)))
   \<and> (\<not> baseOffset + iota a + 4 \<le> length view \<longrightarrow>
      write_then_read (fst (allocUint32Field a)) view baseOffset v = Inl RangeError)
   \<and> to_uint 32 (Fin (of_int n)) = nat (n mod 2 ^ 32)"
proof -
  have a8: "write_then_read (fst (allocUint8Field a)) view baseOffset v
           = Inr (Fin (real (to_uint 8 v)))" if "baseOffset + iota a + 1 \<le> length view"
    using uint8_round_trip [of "baseOffset + iota a" view v] that
    by (auto simp: write_then_read_def alloc_fields)
  have a32: "write_then_read (fst (allocUint32Field a)) view baseOffset v
           = Inr (Fin (real (to_uint 32 v)))" if "baseOffset + iota a + 4 \<le> length view"
    using uint32_round_trip [of "baseOffset + iota a" view v] that
    by (auto simp: write_then_read_def alloc_fields)
  have e8: "write_then_read (fst (allocUint8Field a)) view baseOffset v = Inl RangeError"
    if "\<not> baseOffset + iota a + 1 \<le> length view"
    using uint8_out_of_range [of "baseOffset + iota a" view v] that
    by (simp add: write_then_read_def alloc_fields)
  have e32: "write_then_read (fst (allocUint32Field a)) view baseOffset v = Inl RangeError"
    if "\<not> baseOffset + iota a + 4 \<le> length view"
    using uint32_out_of_range [of "baseOffset + iota a" view v] that
    by (simp add: write_then_read_def alloc_fields)
  have b8: "Fin (real (to_uint 8 v)) = v \<longleftrightarrow> (\<exists>k. v = Fin (of_int k) \<and> 0 \<le> k \<and> k \<le> 255)"
    unfolding to_uint_exact by auto
  have b32: "Fin (real (to_uint 32 v)) = v \<longleftrightarrow> (\<exists>k. v = Fin (of_int k) \<and> 0 \<le> k \<and> k < 2 ^ 32)"
    by (rule to_uint_exact)
  have c8: "write_then_read (fst (allocUint8Field a)) view baseOffset v = Inr v
           \<longleftrightarrow> (\<exists>k. v = Fin (of_int k) \<and> 0 \<le> k \<and> k \<le> 255)"
    if "baseOffset + iota a + 1 \<le> length view"
    unfolding a8 [OF that] using b8 by simp
  have c32: "write_then_read (fst (allocUint32Field a)) view baseOffset v = Inr v
           \<longleftrightarrow> (\<exists>k. v = Fin (of_int k) \<and> 0 \<le> k \<and> k < 2 ^ 32)"
    if "baseOffset + iota a + 4 \<le> length view"
    unfolding a32 [OF that] using b32 by simp
  have n8: "to_uint 8 (Fin (of_int n)) = nat (n mod 256)" by (simp add: to_uint_int)
  have n32: "to_uint 32 (Fin (of_int n)) = nat (n mod 2 ^ 32)" by (rule to_uint_int)
  from a8 c8 e8 n8 a32 c32 e32 n32 show ?thesis by blast
qed

text \<open>
  In a view of the 14 bytes of the handshake: through \<open>HelloStruct.hue\<close>, at offset 13,
  300 reads back as 44 and 255 as 255; through \<open>HelloStruct.id\<close>, at offset 1, \<open>-1\<close>
  reads back as \<open>4294967295\<close> and 7 as 7; a uint32 field at offset 13 does not fit.
\<close>

theorem uint_field_round_trip_witness:
  "(0::nat) + iota \<lparr>iota = 13\<rparr> + 1 \<le> length (replicate 14 (0 :: 8 word))
   \<and> (0::nat) + iota \<lparr>iota = 1\<rparr> + 4 \<le> length (replicate 14 (0 :: 8 word))
   \<and> \<not> (0::nat) + iota \<lparr>iota = 13\<rparr> + 4 \<le> length (replicate 14 (0 :: 8 word))
   \<and> write_then_read (hello_hue HelloStruct) (replicate 14 0) 0 (Fin 300) = Inr (Fin 44)
   \<and> write_then_read (hello_hue HelloStruct) (replicate 14 0) 0 (Fin 255) = Inr (Fin 255)
   \<and> write_then_read (hello_id HelloStruct) (replicate 14 0) 0 (Fin (- 1))
        = Inr (Fin 4294967295)
   \<and> write_then_read (hello_id HelloStruct) (replicate 14 0) 0 (Fin 7) = Inr (Fin 7)
   \<and> write_then_read (fst (allocUint32Field \<lparr>iota = 13\<rparr>)) (replicate 14 0) 0 (Fin 7)
        = Inl RangeError"
proof -
  have h8: "(0::nat) + iota \<lparr>iota = 13\<rparr> + 1 \<le> length (replicate 14 (0 :: 8 word))" by simp
  have h32: "(0::nat) + iota \<lparr>iota = 1\<rparr> + 4 \<le> length (replicate 14 (0 :: 8 word))" by simp
  have o32: "\<not> (0::nat) + iota \<lparr>iota = 13\<rparr> + 4 \<le> length (replicate 14 (0 :: 8 word))"
    by simp
  have hue: "hello_hue HelloStruct = fst (allocUint8Field \<lparr>iota = 13\<rparr>)"
    and ident: "hello_id HelloStruct = fst (allocUint32Field \<lparr>iota = 1\<rparr>)"
    by (simp_all add: HelloStruct_eq)
  have t: "trunc 300 = 300" "trunc 255 = 255" "trunc (- 1) = - 1" "trunc 7 = 7"
    using trunc_of_int [of 300] trunc_of_int [of 255] trunc_of_int [of "- 1"]
      trunc_of_int [of 7]
    by simp_all
  have a: "write_then_read (hello_hue HelloStruct) (replicate 14 0) 0 (Fin 300) = Inr (Fin 44)"
    using uint_field_round_trip [of 0 "\<lparr>iota = 13\<rparr>" "replicate 14 0" "Fin 300"] h8
    unfolding hue by (simp add: t)
  have b: "write_then_read (hello_hue HelloStruct) (replicate 14 0) 0 (Fin 255) = Inr (Fin 255)"
    using uint_field_round_trip [of 0 "\<lparr>iota = 13\<rparr>" "replicate 14 0" "Fin 255"] h8
    unfolding hue by (simp add: t)
  have c: "write_then_read (hello_id HelloStruct) (replicate 14 0) 0 (Fin (- 1))
        = Inr (Fin 4294967295)"
    using uint_field_round_trip [of 0 "\<lparr>iota = 1\<rparr>" "replicate 14 0" "Fin (- 1)"] h32
    unfolding ident by (simp add: t)
  have d: "write_then_read (hello_id HelloStruct) (replicate 14 0) 0 (Fin 7) = Inr (Fin 7)"
    using uint_field_round_trip [of 0 "\<lparr>iota = 1\<rparr>" "replicate 14 0" "Fin 7"] h32
    unfolding ident by (simp add: t)
  have e: "write_then_read (fst (allocUint32Field \<lparr>iota = 13\<rparr>)) (replicate 14 0) 0 (Fin 7)
        = Inl RangeError"
    using uint_field_round_trip [of 0 "\<lparr>iota = 13\<rparr>" "replicate 14 0" "Fin 7"] o32
    by simp
  from h8 h32 o32 a b c d e show ?thesis by blast
qed

section \<open>The binary32 encoding and the handshake record\<close>

lemma bit_fields_gen:
  fixes s E f b :: nat
  assumes "s < 2" "E < 256" "f < b"
  shows "(s * (256 * b) + E * b + f) div (256 * b) mod 2 = s"
    and "(s * (256 * b) + E * b + f) div b mod 256 = E"
    and "(s * (256 * b) + E * b + f) mod b = f"
    and "s * (256 * b) + E * b + f < 512 * b"
proof -
  have b: "0 < b" using assms(3) by simp
  have "E * b + f < E * b + b" using assms(3) by simp
  also have "\<dots> = (E + 1) * b" by simp
  also have "\<dots> \<le> 256 * b" using assms(2) by (intro mult_right_mono) simp_all
  finally have low: "E * b + f < 256 * b" .
  have "(s * (256 * b) + E * b + f) div (256 * b) = s"
    using low by (simp add: add.assoc)
  then show "(s * (256 * b) + E * b + f) div (256 * b) mod 2 = s" using assms(1) by simp
  have "s * (256 * b) + E * b + f = f + (s * 256 + E) * b" by (simp add: algebra_simps)
  then have "(s * (256 * b) + E * b + f) div b = s * 256 + E" using assms(3) by simp
  then show "(s * (256 * b) + E * b + f) div b mod 256 = E" using assms(2) by simp
  have "s * (256 * b) + E * b + f = f + (s * 256 + E) * b" by (simp add: algebra_simps)
  then show "(s * (256 * b) + E * b + f) mod b = f" using assms(3) by simp
  have "s * (256 * b) \<le> 1 * (256 * b)" using assms(1) by (intro mult_right_mono) simp_all
  then have "s * (256 * b) \<le> 256 * b" by simp
  then show "s * (256 * b) + E * b + f < 512 * b" using low by linarith
qed

lemma bit_fields:
  fixes s E f :: nat
  assumes "s < 2" "E < 256" "f < 2 ^ 23"
  shows "(s * 2 ^ 31 + E * 2 ^ 23 + f) div 2 ^ 31 mod 2 = s"
    and "(s * 2 ^ 31 + E * 2 ^ 23 + f) div 2 ^ 23 mod 256 = E"
    and "(s * 2 ^ 31 + E * 2 ^ 23 + f) mod 2 ^ 23 = f"
    and "s * 2 ^ 31 + E * 2 ^ 23 + f < 2 ^ 32"
  using bit_fields_gen [OF assms] by simp_all


lemma float32_value_fields:
  assumes "s < 2" "E < 255" "f < 2 ^ 23"
  shows "float32_value (s * 2 ^ 31 + E * 2 ^ 23 + f) =
           Fin ((if s = 1 then - 1 else 1) *
                (if E = 0 then real f * 2 powi (- 149)
                 else real (2 ^ 23 + f) * 2 powi (int E - 150)))"
proof -
  have E: "E < 256" using assms(2) by simp
  note bf = bit_fields(1-3) [OF assms(1) E assms(3)]
  show ?thesis
    unfolding float32_value_def Let_def bf using assms(2) by simp
qed

lemma pow23_powi: "2 ^ 23 * (2::real) powi (e - 23) = 2 powi e"
  using powi_split [of 23 "e - 1"] by simp

lemma float32_magnitude_subnormal:
  assumes "m < 2 ^ 23"
  shows "float32_magnitude (real m * 2 powi (- 149)) = m"
proof -
  have "real m < 2 ^ 23" using assms by (metis of_nat_less_iff of_nat_numeral of_nat_power)
  then have "real m * 2 powi (- 149) < 2 ^ 23 * 2 powi (- 149)" by simp
  also have "\<dots> = 2 powi (- 126)" using pow23_powi [of "- 126"] by simp
  finally have sub: "real m * 2 powi (- 149) < 2 powi (- 126)" .
  have "real m * 2 powi (- 149) / 2 powi (- 149) = real m" by simp
  then show ?thesis unfolding float32_magnitude_def using sub by simp
qed

lemma float32_magnitude_normal:
  assumes m: "2 ^ 23 \<le> m" "m < 2 ^ 24" and e: "- 126 \<le> e" "e \<le> 127"
  shows "float32_magnitude (real m * 2 powi (e - 23)) = nat (e + 127) * 2 ^ 23 + (m - 2 ^ 23)"
proof -
  define a where "a = real m * 2 powi (e - 23)"
  have u: "0 < (2::real) powi (e - 23)" by simp
  have "(2::real) ^ 23 \<le> real m" using m(1) by (metis of_nat_le_iff of_nat_numeral of_nat_power)
  then have "2 ^ 23 * 2 powi (e - 23) \<le> a" unfolding a_def using u by (simp only: mult_le_cancel_right_pos)
  then have lo: "2 powi e \<le> a" by (simp only: pow23_powi)
  have "real m < 2 ^ 24" using m(2) by (metis of_nat_less_iff of_nat_numeral of_nat_power)
  then have "a < 2 ^ 24 * 2 powi (e - 23)" unfolding a_def using u by (simp only: mult_less_cancel_right_pos)
  also have "(2::real) ^ 24 * 2 powi (e - 23) = 2 powi (e + 1)"
    using powi_split [of 24 e] by simp
  finally have hi: "a < 2 powi (e + 1)" .
  have "(2::real) powi (- 126) \<le> 2 powi e" using e(1) by (intro power_int_increasing) simp_all
  with lo have lo': "2 powi (- 126) \<le> a" by simp
  have "(2::real) powi (e + 1) \<le> 2 powi (- 126 + 2 ^ 8)"
    using e(2) by (intro power_int_increasing) simp_all
  with hi have top: "a < 2 powi (- 126 + 2 ^ 8)" by simp
  define s where "s = search_exp 8 (- 126) a"
  have "e \<le> s" unfolding s_def using lo e(2) by (intro search_exp_largest) simp_all
  moreover have "2 powi s \<le> a" unfolding s_def using lo' by (rule search_exp_lower)
  then have "(2::real) powi s < 2 powi (e + 1)" using hi by simp
  then have "s < e + 1"
    using power_int_increasing [of "e + 1" s "2::real"] by (cases "s < e + 1") auto
  ultimately have s: "s = e" by simp
  have "a / 2 powi (e - 23) = real m" by (simp add: a_def)
  then have "nat \<lfloor>a / 2 powi (e - 23)\<rfloor> = m" by simp
  then show ?thesis
    unfolding float32_magnitude_def a_def [symmetric] Let_def s_def [symmetric] s
    using lo' by simp
qed

lemma float32_decode_encode:
  assumes "float32_form m e"
  shows "float32_magnitude (real m * 2 powi (e - 23)) < 2 ^ 31"
    and "float32_value (float32_magnitude (real m * 2 powi (e - 23)))
           = Fin (real m * 2 powi (e - 23))"
    and "float32_value (2 ^ 31 + float32_magnitude (real m * 2 powi (e - 23)))
           = Fin (- (real m * 2 powi (e - 23)))"
proof -
  define a where "a = real m * 2 powi (e - 23)"
  have "\<exists>E f. E < 255 \<and> f < 2 ^ 23 \<and> float32_magnitude a = E * 2 ^ 23 + f
          \<and> (if E = 0 then real f * 2 powi (- 149)
              else real (2 ^ 23 + f) * 2 powi (int E - 150)) = a"
  proof (cases "2 ^ 23 \<le> m")
    case False
    then have m: "m < 2 ^ 23" and e: "e = - 126" using assms by (auto simp: float32_form_def)
    have "float32_magnitude a = 0 * 2 ^ 23 + m"
      unfolding a_def e using float32_magnitude_subnormal [OF m] by simp
    then show ?thesis using m by (intro exI [of _ 0] exI [of _ m]) (simp add: a_def e)
  next
    case True
    have m: "m < 2 ^ 24" and e: "- 126 \<le> e" "e \<le> 127" using assms by (auto simp: float32_form_def)
    define E where "E = nat (e + 127)"
    define f where "f = m - 2 ^ 23"
    have E: "E < 255" "E \<noteq> 0" "int E - 150 = e - 23" using e by (auto simp: E_def)
    have f: "f < 2 ^ 23" "2 ^ 23 + f = m" using True m by (auto simp: f_def)
    have "float32_magnitude a = E * 2 ^ 23 + f"
      unfolding a_def E_def f_def using True m e by (rule float32_magnitude_normal)
    then show ?thesis using E f by (intro exI [of _ E] exI [of _ f]) (simp add: a_def)
  qed
  then obtain E f where E: "E < 255" and f: "f < 2 ^ 23"
    and mag: "float32_magnitude a = E * 2 ^ 23 + f"
    and val: "(if E = 0 then real f * 2 powi (- 149)
              else real (2 ^ 23 + f) * 2 powi (int E - 150)) = a"
    by blast
  have "float32_magnitude a = 0 * 2 ^ 31 + E * 2 ^ 23 + f" using mag by simp
  moreover have "0 * 2 ^ 31 + E * 2 ^ 23 + f < 2 ^ 31"
    using E f by simp
  ultimately show "float32_magnitude a < 2 ^ 31" by simp
  have "float32_value (0 * 2 ^ 31 + E * 2 ^ 23 + f) = Fin a"
    using float32_value_fields [of 0 E f] E f val by simp
  then show "float32_value (float32_magnitude a) = Fin a" using mag by simp
  have "float32_value (1 * 2 ^ 31 + E * 2 ^ 23 + f) = Fin (- a)"
    using float32_value_fields [of 1 E f] E f val by simp
  then show "float32_value (2 ^ 31 + float32_magnitude a) = Fin (- a)"
    using mag by (simp add: add.assoc)
qed

lemma rhe_abs: "\<bar>round_half_even z\<bar> = round_half_even \<bar>z\<bar>"
  using rhe_neg [of z] rhe_nonneg [of z] rhe_nonneg [of "- z"] by (cases "0 \<le> z") auto

lemma round_to_abs:
  assumes "round_to bits p emin emax x = Fin y"
  shows "\<bar>y\<bar> = of_int (round_half_even
            (\<bar>x\<bar> / 2 powi (min emax (search_exp bits emin \<bar>x\<bar>) - int p + 1)))
          * 2 powi (min emax (search_exp bits emin \<bar>x\<bar>) - int p + 1)"
    and "\<bar>y\<bar> < 2 powi (emax + 1)"
proof -
  define u :: real where "u = 2 powi (min emax (search_exp bits emin \<bar>x\<bar>) - int p + 1)"
  have u: "0 < u" by (simp add: u_def)
  have y: "y = of_int (round_half_even (x / u)) * u"
    and b: "\<not> 2 powi (emax + 1) \<le> y" "\<not> y \<le> - (2 powi (emax + 1))"
    using assms unfolding round_to_def Let_def u_def [symmetric] by (auto split: if_splits)
  have "\<bar>y\<bar> = \<bar>real_of_int (round_half_even (x / u))\<bar> * u"
    using u by (simp add: y abs_mult)
  also have "\<bar>real_of_int (round_half_even (x / u))\<bar> = of_int \<bar>round_half_even (x / u)\<bar>" by simp
  also have "\<bar>round_half_even (x / u)\<bar> = round_half_even (\<bar>x\<bar> / u)"
    using u by (simp add: rhe_abs)
  finally show "\<bar>y\<bar> = of_int (round_half_even (\<bar>x\<bar> / u)) * u" .
  show "\<bar>y\<bar> < 2 powi (emax + 1)" using b by linarith
qed

lemma fround_form:
  assumes "round_to 8 24 (- 126) 127 x = Fin y"
  shows "\<exists>m e. float32_form m e \<and> \<bar>y\<bar> = real m * 2 powi (e - 23)"
proof -
  define a where "a = \<bar>x\<bar>"
  define s where "s = search_exp 8 (- 126) a"
  define ex where "ex = min 127 s"
  define u :: real where "u = 2 powi (ex - 23)"
  define k where "k = round_half_even (a / u)"
  define n where "n = nat k"
  have a: "0 \<le> a" by (simp add: a_def)
  have u: "0 < u" by (simp add: u_def)
  have k0: "0 \<le> k" unfolding k_def using a u by (intro rhe_nonneg) simp
  then have kn: "real_of_int k = real n" by (simp add: n_def)
  have e1: "2 powi (min 127 (search_exp 8 (- 126) a) - int 24 + 1) = u"
    by (simp add: u_def ex_def s_def)
  have "\<bar>y\<bar> = real_of_int (round_half_even (a / u)) * u"
    using round_to_abs(1) [OF assms] unfolding a_def [symmetric] e1 .
  then have y: "\<bar>y\<bar> = real n * u" unfolding k_def [symmetric] kn .
  have fin: "\<bar>y\<bar> < 2 powi (127 + 1)"
    using assms by (rule round_to_abs(2))
  have s_lo: "- 126 \<le> s" unfolding s_def using search_exp_range [of "- 126" 8 a] by simp
  then have ex: "- 126 \<le> ex" "ex \<le> 127" by (simp_all add: ex_def)
  have p24: "2 ^ 24 * u = 2 powi (ex + 1)" unfolding u_def using powi_split [of 24 ex] by simp
  have p23: "2 ^ 23 * u = 2 powi ex" unfolding u_def by (rule pow23_powi)
  text \<open>The significand has at most 24 bits, and exactly 24 above the least exponent.\<close>
  have top: "n < 2 ^ 24" if "ex = 127"
  proof -
    have "real n * u < 2 ^ 24 * u" using fin y p24 that by simp
    then have "real n < 2 ^ 24" using u by (simp only: mult_less_cancel_right_pos)
    then show ?thesis by (metis of_nat_less_iff of_nat_numeral of_nat_power)
  qed
  have le: "n \<le> 2 ^ 24" if "ex < 127"
  proof -
    have se: "s = ex" "s < 127" using that by (simp_all add: ex_def)
    have "a < 2 powi 127"
      using search_exp_largest [of 127 a "- 126" 8] se(2)
      by (cases "a < 2 powi 127") (auto simp: s_def)
    moreover have "(2::real) powi 127 \<le> 2 powi (- 126 + 2 ^ 8)"
      by (intro power_int_increasing) simp_all
    ultimately have "a < 2 powi (- 126 + 2 ^ 8)" by simp
    then have "a < 2 powi (s + 1)" unfolding s_def by (rule search_exp_upper)
    then have "a < 2 ^ 24 * u" by (simp only: se(1) p24)
    then have "a / u < 2 ^ 24" using u by (simp add: field_simps)
    then have "a / u \<le> real_of_int (2 ^ 24)" by simp
    then have "k \<le> 2 ^ 24" unfolding k_def by (rule rhe_le_int)
    then show ?thesis using k0 by (simp add: n_def)
  qed
  have ge: "2 ^ 23 \<le> n" if "- 126 < ex"
  proof -
    have "- 126 < s" using that by (simp add: ex_def)
    then have "2 powi s \<le> a" unfolding s_def by (rule search_exp_above)
    moreover have "(2::real) powi ex \<le> 2 powi s"
      by (intro power_int_increasing) (simp_all add: ex_def)
    ultimately have "2 ^ 23 * u \<le> a" by (simp only: p23)
    then have "2 ^ 23 \<le> a / u" using u by (simp add: field_simps)
    then have "real_of_int (2 ^ 23) \<le> a / u" by simp
    then have "2 ^ 23 \<le> k" unfolding k_def by (rule rhe_ge_int)
    then show ?thesis using k0 by (simp add: n_def)
  qed
  show ?thesis
  proof (cases "n = 2 ^ 24")
    case True
    then have e: "ex < 127" using top ex(2) by (cases "ex = 127") auto
    have "(2::real) powi (ex + 1 - 23) = 2 powi (ex - 23) * 2 powi 1"
      using power_int_add [of "2::real" "ex - 23" 1] by (simp add: algebra_simps)
    then have "\<bar>y\<bar> = real (2 ^ 23) * 2 powi (ex + 1 - 23)"
      using y True by (simp add: u_def)
    moreover have "float32_form (2 ^ 23) (ex + 1)"
      using e ex by (simp add: float32_form_def)
    ultimately show ?thesis by blast
  next
    case False
    have "n \<le> 2 ^ 24" using top le ex(2) by (cases "ex = 127") auto
    then have "n < 2 ^ 24" using False by simp
    moreover have "2 ^ 23 \<le> n \<or> ex = - 126" using ge ex(1) by (cases "ex = - 126") auto
    ultimately have "float32_form n ex" using ex by (simp add: float32_form_def)
    then show ?thesis using y unfolding u_def by blast
  qed
qed

text \<open>
  Every single-precision value is the value of its own bit pattern, which has 32 bits.
\<close>

lemma float32_round_trip:
  "float32_value (float32_bits (fround v)) = fround v \<and> float32_bits (fround v) < 2 ^ 32"
proof -
  have special:
    "float32_value (float32_bits NaN) = NaN \<and> float32_bits NaN < 2 ^ 32"
    "float32_value (float32_bits PInf) = PInf \<and> float32_bits PInf < 2 ^ 32"
    "float32_value (float32_bits NInf) = NInf \<and> float32_bits NInf < 2 ^ 32"
    by (simp_all add: float32_value_def signed_inf_def)
  have finite: "float32_value (float32_bits (Fin y)) = Fin y \<and> float32_bits (Fin y) < 2 ^ 32"
    if r: "round_to 8 24 (- 126) 127 x = Fin y" for x y
  proof -
    obtain m e where f: "float32_form m e" and y: "\<bar>y\<bar> = real m * 2 powi (e - 23)"
      using fround_form [OF r] by blast
    note de = float32_decode_encode [OF f, folded y]
    show ?thesis
    proof (cases "y < 0")
      case True
      then show ?thesis using de by simp
    next
      case False
      then show ?thesis using de by simp
    qed
  qed
  show ?thesis
  proof (cases v)
    case v: (Fin x)
    show ?thesis
    proof (cases "round_to 8 24 (- 126) 127 x")
      case (Fin y)
      then show ?thesis using finite [of x y] by (simp add: v)
    qed (simp_all only: v fround.simps special)
  qed (simp_all only: fround.simps special)
qed

lemma read_below:
  assumes "write_bytes view i bs = Inr view'" and "j + k \<le> i"
  shows "read_bytes view' j k = read_bytes view j k"
  using assms by (intro read_elsewhere [of view i bs]) simp_all

lemma write_bytes_total:
  assumes "i + length bs \<le> length view"
  obtains view' where "write_bytes view i bs = Inr view'" "length view' = length view"
  using assms by (simp add: write_bytes_def)

text \<open>What a getter returns on the bytes its setter writes.\<close>

lemma getUint8_of_bytes:
  "read_bytes view i 1 = Inr (le_bytes 1 (to_uint 8 v)) \<Longrightarrow>
   getUint8 view i = Inr (Fin (real (to_uint 8 v)))"
  using le_value_to_uint(2) [of 1 v] by (simp add: getUint8_def)

lemma getUint32_of_bytes:
  "read_bytes view i 4 = Inr (le_bytes 4 (to_uint 32 v)) \<Longrightarrow>
   getUint32 view i True = Inr (Fin (real (to_uint 32 v)))"
  using le_value_to_uint(1) [of 4 v] by (simp add: getUint32_def ordered_def)

lemma getFloat32_of_bytes:
  assumes "read_bytes view i 4 = Inr (le_bytes 4 (float32_bits (fround v)))"
  shows "getFloat32 view i True = Inr (fround v)"
proof -
  have "float32_bits (fround v) < 256 ^ 4" using float32_round_trip [of v] by simp
  then have "le_value (le_bytes 4 (float32_bits (fround v))) = float32_bits (fround v)"
    by (simp only: le_value_le_bytes mod_less)
  then show ?thesis using assms float32_round_trip [of v] by (simp add: getFloat32_def ordered_def)
qed

lemma to_uint_in_range: "0 \<le> n \<Longrightarrow> n < 2 ^ bits \<Longrightarrow> real (to_uint bits (Fin (of_int n))) = of_int n"
  by simp

text \<open>
  C4: for an \<open>id\<close> that is an integer in \<open>[0, 2 ^ 32)\<close>, a \<open>hue\<close> that is an integer in
  \<open>[0, 255]\<close> and any numbers \<open>x\<close> and \<open>y\<close>, writing the five fields of \<open>HelloStruct\<close>
  into a view that holds the 14 bytes and reading them back gives the kind, the same
  \<open>id\<close> and \<open>hue\<close>, and \<open>x\<close> and \<open>y\<close> rounded to single precision.
\<close>

theorem hello_round_trip:
  assumes "baseOffset + 14 \<le> length view"
    and "0 \<le> i" "i < 2 ^ 32" and "0 \<le> h" "h \<le> 255"
  shows "\<exists>view'. write_hello view baseOffset (Fin (of_int i)) x y (Fin (of_int h)) = Inr view'
     \<and> field_read (hello_kind HelloStruct) view' baseOffset = Inr (MessageKind_value Hello)
     \<and> field_read (hello_id HelloStruct) view' baseOffset = Inr (Fin (of_int i))
     \<and> field_read (hello_x HelloStruct) view' baseOffset = Inr (fround x)
     \<and> field_read (hello_y HelloStruct) view' baseOffset = Inr (fround y)
     \<and> field_read (hello_hue HelloStruct) view' baseOffset = Inr (Fin (of_int h))"
proof -
  define bk where "bk = le_bytes 1 (to_uint 8 (Fin 0))"
  define bi where "bi = le_bytes 4 (to_uint 32 (Fin (of_int i)))"
  define bx where "bx = le_bytes 4 (float32_bits (fround x))"
  define yb where "yb = le_bytes 4 (float32_bits (fround y))"
  define bh where "bh = le_bytes 1 (to_uint 8 (Fin (of_int h)))"
  have len: "length bk = 1" "length bi = 4" "length bx = 4" "length yb = 4" "length bh = 1"
    by (simp_all add: bk_def bi_def bx_def yb_def bh_def)
  obtain v1 where v1: "write_bytes view (baseOffset + 0) bk = Inr v1" "length v1 = length view"
    using assms(1) len by (auto intro: write_bytes_total [of "baseOffset + 0" bk view])
  obtain v2 where v2: "write_bytes v1 (baseOffset + 1) bi = Inr v2" "length v2 = length view"
    using assms(1) len v1(2) by (auto intro: write_bytes_total [of "baseOffset + 1" bi v1])
  obtain v3 where v3: "write_bytes v2 (baseOffset + 5) bx = Inr v3" "length v3 = length view"
    using assms(1) len v2(2) by (auto intro: write_bytes_total [of "baseOffset + 5" bx v2])
  obtain v4 where v4: "write_bytes v3 (baseOffset + 9) yb = Inr v4" "length v4 = length view"
    using assms(1) len v3(2) by (auto intro: write_bytes_total [of "baseOffset + 9" yb v3])
  obtain v5 where v5: "write_bytes v4 (baseOffset + 13) bh = Inr v5" "length v5 = length view"
    using assms(1) len v4(2) by (auto intro: write_bytes_total [of "baseOffset + 13" bh v4])
  have w: "write_hello view baseOffset (Fin (of_int i)) x y (Fin (of_int h)) = Inr v5"
    using v1(1) v2(1) v3(1) v4(1) v5(1)
    by (simp add: write_hello_def and_then_def HelloStruct_eq alloc_fields setUint8_def
        setUint32_def setFloat32_def ordered_def bk_def bi_def bx_def yb_def bh_def)
  have rk: "read_bytes v5 (baseOffset + 0) 1 = Inr bk"
    using read_written [OF v1(1)] read_below [OF v2(1), of "baseOffset + 0" 1]
      read_below [OF v3(1), of "baseOffset + 0" 1] read_below [OF v4(1), of "baseOffset + 0" 1]
      read_below [OF v5(1), of "baseOffset + 0" 1] len
    by simp
  have ri: "read_bytes v5 (baseOffset + 1) 4 = Inr bi"
    using read_written [OF v2(1)]
      read_below [OF v3(1), of "baseOffset + 1" 4] read_below [OF v4(1), of "baseOffset + 1" 4]
      read_below [OF v5(1), of "baseOffset + 1" 4] len
    by simp
  have rx: "read_bytes v5 (baseOffset + 5) 4 = Inr bx"
    using read_written [OF v3(1)] read_below [OF v4(1), of "baseOffset + 5" 4]
      read_below [OF v5(1), of "baseOffset + 5" 4] len
    by simp
  have ry: "read_bytes v5 (baseOffset + 9) 4 = Inr yb"
    using read_written [OF v4(1)] read_below [OF v5(1), of "baseOffset + 9" 4] len
    by simp
  have rh: "read_bytes v5 (baseOffset + 13) 1 = Inr bh"
    using read_written [OF v5(1)] len by simp
  have k: "field_read (hello_kind HelloStruct) v5 baseOffset = Inr (MessageKind_value Hello)"
    using getUint8_of_bytes [OF rk [unfolded bk_def]]
    by (simp add: HelloStruct_eq alloc_fields trunc_def)
  have i: "field_read (hello_id HelloStruct) v5 baseOffset = Inr (Fin (of_int i))"
    using getUint32_of_bytes [OF ri [unfolded bi_def]] assms(2,3)
    by (simp add: HelloStruct_eq alloc_fields)
  have x: "field_read (hello_x HelloStruct) v5 baseOffset = Inr (fround x)"
    using getFloat32_of_bytes [OF rx [unfolded bx_def]] by (simp add: HelloStruct_eq alloc_fields)
  have y: "field_read (hello_y HelloStruct) v5 baseOffset = Inr (fround y)"
    using getFloat32_of_bytes [OF ry [unfolded yb_def]] by (simp add: HelloStruct_eq alloc_fields)
  have h: "field_read (hello_hue HelloStruct) v5 baseOffset = Inr (Fin (of_int h))"
    using getUint8_of_bytes [OF rh [unfolded bh_def]] assms(4,5)
    by (simp add: HelloStruct_eq alloc_fields)
  from w k i x y h show ?thesis by blast
qed

lemmas f32_eval = round_eval float32_magnitude_def float32_value_def

lemma fround_790: "fround (Fin 790) = Fin 790"
  by (simp add: f32_eval)

lemma fround_tenth: "fround (Fin tenth) = Fin (13421773 / 134217728)"
  by (simp add: f32_eval tenth_def)

lemma bits_790: "float32_bits (Fin 790) = 1145405440"
  by (simp add: f32_eval)

lemma bits_tenth: "float32_bits (Fin (13421773 / 134217728)) = 1036831949"
  by (simp add: f32_eval)

lemma le_bytes_numeral:
  "le_bytes (numeral k) n = of_nat (n mod 256) # le_bytes (pred_numeral k) (n div 256)"
  by (simp only: numeral_eq_Suc le_bytes.simps)

lemma example_bytes:
  "le_bytes 1 (to_uint 8 (Fin 0)) = [0]"
  "le_bytes 4 (to_uint 32 (Fin 7)) = [7, 0, 0, 0]"
  "le_bytes 4 (float32_bits (fround (Fin 790))) = [0, 128, 69, 68]"
  "le_bytes 4 (float32_bits (fround (Fin tenth))) = [205, 204, 204, 61]"
  "le_bytes 1 (to_uint 8 (Fin 255)) = [255]"
proof -
  have t: "trunc 0 = 0" "trunc 7 = 7" "trunc 255 = 255"
    using trunc_of_int [of 0] trunc_of_int [of 7] trunc_of_int [of 255] by simp_all
  show "le_bytes 1 (to_uint 8 (Fin 0)) = [0]" by (simp add: t)
  show "le_bytes 4 (to_uint 32 (Fin 7)) = [7, 0, 0, 0]" by (simp add: t le_bytes_numeral)
  show "le_bytes 4 (float32_bits (fround (Fin 790))) = [0, 128, 69, 68]"
    unfolding fround_790 bits_790 by (simp add: le_bytes_numeral)
  show "le_bytes 4 (float32_bits (fround (Fin tenth))) = [205, 204, 204, 61]"
    unfolding fround_tenth bits_tenth by (simp add: le_bytes_numeral)
  show "le_bytes 1 (to_uint 8 (Fin 255)) = [255]" by (simp add: t)
qed

text \<open>
  The bytes of that record, as \<open>DataView\<close> lays them out.
\<close>

lemma hello_example_bytes:
  "write_hello [0, 0, 0, 0, 0, 0, 0, 0, 0, 0, 0, 0, 0, 0] 0 (Fin 7) (Fin 790) (Fin tenth) (Fin 255)
     = Inr [0, 7, 0, 0, 0, 0, 128, 69, 68, 205, 204, 204, 61, 255]"
  unfolding write_hello_def HelloStruct_eq alloc_fields Hello.simps fst_conv Field.simps
    MessageKind_value.simps setUint8_def setUint32_def setFloat32_def ordered_def if_True
    example_bytes
  by (simp add: and_then_def write_bytes_def)

text \<open>
  The record with id 7 at \<open>(790, 0.1)\<close> and hue 255: 790 is read back as it is, and
  \<open>0.1\<close> as the single-precision value \<open>13421773 / 2 ^ 27\<close>.
\<close>

theorem hello_round_trip_witness:
  "(0::nat) + 14 \<le> length [0, 0, 0, 0, 0, 0, 0, 0, 0, 0, 0, 0, 0, 0 :: 8 word]
   \<and> (0::int) \<le> 7 \<and> (7::int) < 2 ^ 32 \<and> (0::int) \<le> 255 \<and> (255::int) \<le> 255
   \<and> (\<exists>view'.
         write_hello [0, 0, 0, 0, 0, 0, 0, 0, 0, 0, 0, 0, 0, 0] 0 (Fin 7) (Fin 790) (Fin tenth)
           (Fin 255) = Inr view'
       \<and> field_read (hello_kind HelloStruct) view' 0 = Inr (Fin 0)
       \<and> field_read (hello_id HelloStruct) view' 0 = Inr (Fin 7)
       \<and> field_read (hello_x HelloStruct) view' 0 = Inr (Fin 790)
       \<and> field_read (hello_y HelloStruct) view' 0 = Inr (Fin (13421773 / 134217728))
       \<and> field_read (hello_hue HelloStruct) view' 0 = Inr (Fin 255))"
proof -
  have a: "(0::nat) + 14 \<le> length [0, 0, 0, 0, 0, 0, 0, 0, 0, 0, 0, 0, 0, 0 :: 8 word]" by simp
  have b: "(0::int) \<le> 7" "(7::int) < 2 ^ 32" "(0::int) \<le> 255" "(255::int) \<le> 255" by simp_all
  show ?thesis
    using hello_round_trip [OF a b, of "Fin 790" "Fin tenth"]
    by (simp add: fround_790 fround_tenth del: fround.simps)
qed

section \<open>The validators and the codec: theorems\<close>

lemmas validator_defs = isPlayerJoined_def isPlayerLeft_def isAmmaMoving_def isPlayerMoving_def
  and_also_def and_then_def kind_is_def number_at_def boolean_at_def direction_at_def
  isDirection_def isNumber_def isBoolean_def has_property_def Object_prototype_names_def
  DIRECTION_VECTORS_def amma_moving_def player_moving_def

text \<open>
  Where the validators do as documented: the two without a direction field never throw,
  and \<open>isPlayerLeft\<close> returns \<open>true\<close> exactly for an object whose \<open>kind\<close> is the literal
  and whose \<open>id\<close> is a number.
\<close>

lemma get_property_truthy: "ToBoolean arg \<Longrightarrow> \<exists>v. get_property arg name = Inr v"
  by (cases arg) simp_all

lemma isPlayerLeft_returns: "\<exists>v. isPlayerLeft arg = Inr v"
  by (cases arg) (simp_all add: validator_defs)

lemma isPlayerJoined_returns: "\<exists>v. isPlayerJoined arg = Inr v"
  by (cases arg) (simp_all add: validator_defs)

lemma isPlayerLeft_true_iff:
  "isPlayerLeft arg = Inr (Boolean True) \<longleftrightarrow>
     (\<exists>ps n. arg = Object ps \<and> map_of ps ''kind'' = Some (String ''PlayerLeft'')
        \<and> map_of ps ''id'' = Some (Number n))"
  by (cases arg) (auto simp: validator_defs split: option.splits jsval.splits)

text \<open>On a string, \<open>isDirection\<close> is the membership in the table's keys or the inherited names.\<close>

lemma isDirection_String:
  "isDirection num_to_string (String s) =
     Inr (s \<in> {''left'', ''right'', ''up'', ''down''} \<or> s \<in> set Object_prototype_names)"
  by (auto simp: isDirection_def and_then_def has_property_def DIRECTION_VECTORS_def)

text \<open>
  C2 holds for none of the two validators with a direction field: \<open>isDirection\<close> looks the
  value up in the table as a property key, so \<open>toString\<close> and \<open>constructor\<close>, which the
  table inherits from \<open>Object.prototype\<close>, are accepted as directions, as is the array
  \<open>["left"]\<close>, which is not a string; an object with an own \<open>toString\<close> property as
  direction makes the validator throw; and a falsy argument is returned as it is, so
  \<open>isPlayerLeft(null)\<close> is \<open>null\<close> and not \<open>false\<close>. The keys of the table are accepted
  and other words are rejected.
\<close>

theorem isDirection_accepts_inherited_names:
  "isAmmaMoving num_to_string (amma_moving (String ''toString'')) = Inr (Boolean True)
   \<and> isPlayerMoving num_to_string (player_moving (String ''constructor'')) = Inr (Boolean True)
   \<and> isAmmaMoving num_to_string (amma_moving (Array [String ''left''])) = Inr (Boolean True)
   \<and> isAmmaMoving num_to_string (amma_moving (Object [(''toString'', Null)])) = Inl TypeError
   \<and> isPlayerLeft Null = Inr Null
   \<and> isAmmaMoving num_to_string (amma_moving (String ''left'')) = Inr (Boolean True)
   \<and> isAmmaMoving num_to_string (amma_moving (String ''north'')) = Inr (Boolean False)"
  by (simp add: validator_defs)

text \<open>
  C8: \<open>sendMessage\<close> encodes the message with \<open>JSON.stringify\<close>, invokes \<open>send\<close> of the
  socket exactly once, with the encoded text, and when \<open>send\<close> returns it returns the
  length of the text; an exception of \<open>send\<close> is passed on.
\<close>

theorem sendMessage_sends_once:
  "fst (sendMessage stringify send message) = [Send (stringify message)]
   \<and> (send (stringify message) = None \<longrightarrow>
        snd (sendMessage stringify send message) = Inr (Fin (real (length (stringify message)))))
   \<and> (\<forall>e. send (stringify message) = Some e \<longrightarrow>
        snd (sendMessage stringify send message) = Inl e)"
  by (simp add: sendMessage_def Let_def split: option.splits)

text \<open>A departure message of 28 characters over a socket whose \<open>send\<close> returns.\<close>

theorem sendMessage_sends_once_witness:
  \<open>sendMessage (\<lambda>m. ''{"kind":"PlayerLeft","id":7}'') (\<lambda>text. None) ()
     = ([Send ''{"kind":"PlayerLeft","id":7}''], Inr (Fin 28))\<close>
  using sendMessage_sends_once
    [of \<open>\<lambda>m. ''{"kind":"PlayerLeft","id":7}''\<close> \<open>\<lambda>text. None\<close> \<open>()\<close>]
  by (simp add: prod_eq_iff)

end
